theory Spec2Isabelle
  imports Main "HOL-Library.FSet" "HOL-Library.Product_Lexorder"
begin

section \<open>Data model\<close>

text \<open>
  A cell is a Python tuple \<open>(i, j)\<close> of unbounded integers. Python sets are finite, so
  they are finite sets here. A \<open>Sentence\<close> object has the two attributes \<open>cells\<close> and
  \<open>count\<close>; its \<open>__eq__\<close> compares both, which is equality of records. Sentence objects
  live only in the list \<open>knowledge\<close>, every entry is a fresh object (\<open>Sentence.__init__\<close>
  copies the set it is given) and no set is shared between objects, so in-place mutation
  of the list's entries is the replacement of the entry at the same index.
\<close>

type_synonym cell = "int \<times> int"

record sentence =
  cells :: "cell fset"
  count :: int

definition Sentence :: "cell fset \<Rightarrow> int \<Rightarrow> sentence" where
  "Sentence cs n = \<lparr>cells = cs, count = n\<rparr>"

record agent =
  height :: int
  width :: int
  moves_made :: "cell fset"
  mines :: "cell fset"
  safes :: "cell fset"
  knowledge :: "sentence list"

definition MinesweeperAI :: "int \<Rightarrow> int \<Rightarrow> agent" where
  "MinesweeperAI h w =
     \<lparr>height = h, width = w, moves_made = {||}, mines = {||}, safes = {||}, knowledge = []\<rparr>"

section \<open>Class Sentence\<close>

definition known_mines :: "sentence \<Rightarrow> cell fset" where
  "known_mines s = (if int (fcard (cells s)) = count s then cells s else {||})"

definition known_safes :: "sentence \<Rightarrow> cell fset" where
  "known_safes s = (if count s = 0 then cells s else {||})"

definition Sentence_mark_mine :: "sentence \<Rightarrow> cell \<Rightarrow> sentence" where
  "Sentence_mark_mine s c =
     (if c |\<in>| cells s then s\<lparr>cells := cells s |-| {|c|}, count := count s - 1\<rparr> else s)"

definition Sentence_mark_safe :: "sentence \<Rightarrow> cell \<Rightarrow> sentence" where
  "Sentence_mark_safe s c =
     (if c |\<in>| cells s then s\<lparr>cells := cells s |-| {|c|}\<rparr> else s)"

section \<open>Class MinesweeperAI\<close>

definition mark_mine :: "agent \<Rightarrow> cell \<Rightarrow> agent" where
  "mark_mine st c =
     st\<lparr>mines := finsert c (mines st),
        knowledge := map (\<lambda>s. Sentence_mark_mine s c) (knowledge st)\<rparr>"

definition mark_safe :: "agent \<Rightarrow> cell \<Rightarrow> agent" where
  "mark_safe st c =
     st\<lparr>safes := finsert c (safes st),
        knowledge := map (\<lambda>s. Sentence_mark_safe s c) (knowledge st)\<rparr>"

text \<open>
  \<open>return_neighbors\<close>: the two nested loops over \<open>range(i-1, i+2)\<close> and
  \<open>range(j-1, j+2)\<close>, threading the pair \<open>(neighbors, mineCount)\<close>.
\<close>

definition neighbor_step :: "agent \<Rightarrow> cell \<Rightarrow> cell \<Rightarrow> cell fset \<times> int \<Rightarrow> cell fset \<times> int" where
  "neighbor_step st home c acc =
     (case acc of (neighbors, mineCount) \<Rightarrow>
        (case c of (y, x) \<Rightarrow>
           if y \<ge> 0 \<and> y < height st \<and> x \<ge> 0 \<and> x < width st \<and> (y, x) \<noteq> home
           then (finsert (y, x) neighbors,
                 if (y, x) |\<in>| mines st then mineCount + 1 else mineCount)
           else (neighbors, mineCount)))"

definition return_neighbors :: "agent \<Rightarrow> cell \<Rightarrow> cell fset \<times> int" where
  "return_neighbors st cell =
     (case cell of (i, j) \<Rightarrow>
        fold (\<lambda>y acc. fold (\<lambda>x acc'. neighbor_step st (i, j) (y, x) acc') [j - 1 .. j + 1] acc)
             [i - 1 .. i + 1] ({||}, 0))"

text \<open>
  \<open>add_knowledge\<close>, lines 190 to 204: record the move, mark the cell safe, and append the
  sentence over the undetermined neighbours unless an equal one is in the list.
\<close>

definition add_sentence :: "agent \<Rightarrow> cell \<Rightarrow> int \<Rightarrow> agent" where
  "add_sentence st cell n =
     (let st1 = st\<lparr>moves_made := finsert cell (moves_made st)\<rparr>;
          st2 = mark_safe st1 cell;
          (allNeighbors, mineCount) = return_neighbors st2 cell;
          unknownNeighbors = allNeighbors |-| mines st2 |-| safes st2
      in if unknownNeighbors \<noteq> {||}
         then (let newSentence = Sentence unknownNeighbors (n - mineCount)
               in if newSentence \<notin> set (knowledge st2)
                  then st2\<lparr>knowledge := knowledge st2 @ [newSentence]\<rparr>
                  else st2)
         else st2)"

text \<open>
  \<open>add_knowledge\<close>, lines 206 to 217: one pass over the list. The loops
  \<open>for mine in mines\<close> and \<open>for safe in safes\<close> run over a deep copy of the set in the
  set's iteration order, which Python leaves to the implementation; the model takes the
  sorted order, and \<open>mark_mines_any_order\<close> and \<open>mark_safes_any_order\<close> below show that
  the order changes nothing. The tests \<open>mines not in self.mines\<close> and
  \<open>safes not in self.safes\<close> ask whether a set of cells is an element of a set of
  cells: \<open>self.mines\<close> and \<open>self.safes\<close> hold tuples only, so both tests are always
  true and the guards are the emptiness tests alone. No marking changes the length of
  the list, so the list iterator visits the indices below the length at the start.
\<close>

definition mark_mines :: "agent \<Rightarrow> cell list \<Rightarrow> agent" where
  "mark_mines st cs = fold (\<lambda>c s. mark_mine s c) cs st"

definition mark_safes :: "agent \<Rightarrow> cell list \<Rightarrow> agent" where
  "mark_safes st cs = fold (\<lambda>c s. mark_safe s c) cs st"

definition propagate_sentence :: "nat \<Rightarrow> agent \<Rightarrow> agent" where
  "propagate_sentence i st =
     (let ms = known_mines (knowledge st ! i);
          st1 = (if ms \<noteq> {||} then mark_mines st (sorted_list_of_fset ms) else st);
          ss = known_safes (knowledge st1 ! i)
      in if ss \<noteq> {||} then mark_safes st1 (sorted_list_of_fset ss) else st1)"

definition propagate :: "agent \<Rightarrow> agent" where
  "propagate st = fold propagate_sentence [0 ..< length (knowledge st)] st"

text \<open>
  \<open>add_knowledge\<close>, lines 219 to 235: both \<open>for\<close> loops run over the list that the body
  appends to, and a Python list iterator re-reads the length at every step, so appended
  sentences are visited too. \<open>infer_pair\<close> is the body of the inner loop for
  \<open>sentence = s\<close> and \<open>sentence2 = s2\<close>; \<open>infer_loop\<close> is the two loops as one
  recursion on the indices \<open>i\<close> (outer) and \<open>j\<close> (inner). Nothing in the loops bounds
  the list they run over, so the result is optional: \<open>None\<close> is "never returns". On
  knowledge that is true of a board the loops return (\<open>infer_loop_returns_true\<close> below).
\<close>

definition infer_pair :: "cell fset \<Rightarrow> sentence \<Rightarrow> sentence \<Rightarrow> sentence list \<Rightarrow> sentence list" where
  "infer_pair moves s s2 k =
     (if s = s2 then k
      else if cells s2 \<noteq> {||} \<and> cells s |\<subseteq>| cells s2
      then (let reducedSentence = Sentence (cells s2 |-| cells s |-| moves) (count s2 - count s)
            in if reducedSentence \<notin> set k then k @ [reducedSentence] else k)
      else k)"

partial_function (option) infer_loop ::
  "cell fset \<Rightarrow> nat \<Rightarrow> nat \<Rightarrow> sentence list \<Rightarrow> sentence list option" where
  "infer_loop moves i j k =
     (if i < length k
      then (if cells (k ! i) \<noteq> {||} \<and> j < length k
            then infer_loop moves i (j + 1) (infer_pair moves (k ! i) (k ! j) k)
            else infer_loop moves (i + 1) 0 k)
      else Some k)"

declare infer_loop.simps [code]

definition infer :: "agent \<Rightarrow> agent option" where
  "infer st =
     map_option (\<lambda>k. st\<lparr>knowledge := k\<rparr>) (infer_loop (moves_made st) 0 0 (knowledge st))"

definition add_knowledge :: "agent \<Rightarrow> cell \<Rightarrow> int \<Rightarrow> agent option" where
  "add_knowledge st cell n = infer (propagate (add_sentence st cell n))"

text \<open>
  \<open>make_safe_move\<close> returns the first cell, in the iteration order of the set
  \<open>self.safes\<close>, that is not in \<open>moves_made\<close>. The order is the implementation's; it is
  the parameter \<open>iter\<close>, a list of the elements of \<open>safes\<close>. The function reads the state
  and writes nothing; the model returns the state next to the result.
\<close>

definition make_safe_move :: "cell list \<Rightarrow> agent \<Rightarrow> cell option \<times> agent" where
  "make_safe_move iter st = (find (\<lambda>safe. safe |\<notin>| moves_made st) iter, st)"

text \<open>
  \<open>make_random_move\<close>: \<open>random.sample(remainingChoice, 1).pop()\<close> is called with a set.
  Up to Python 3.10 \<open>random.sample\<close> turns a set into a sequence and returns the entry at
  a random index below its length; from Python 3.11 on it raises \<open>TypeError\<close> for a
  population that is not a sequence. \<open>sets_accepted\<close> says which of the two the
  interpreter does. The random draw is the parameter \<open>r\<close>, reduced below the length; the
  sequence is taken in sorted order. A raised exception is the left summand of the
  result.
\<close>

datatype py_error = TypeError

definition random_sample_pop :: "bool \<Rightarrow> nat \<Rightarrow> cell fset \<Rightarrow> py_error + cell" where
  "random_sample_pop sets_accepted r population =
     (if sets_accepted
      then (let pool = sorted_list_of_fset population in Inr (pool ! (r mod length pool)))
      else Inl TypeError)"

definition all_cells :: "agent \<Rightarrow> cell fset" where
  "all_cells st =
     fold (\<lambda>i acc. fold (\<lambda>j acc'. finsert (i, j) acc') [0 .. width st - 1] acc)
          [0 .. height st - 1] {||}"

definition make_random_move :: "bool \<Rightarrow> nat \<Rightarrow> agent \<Rightarrow> (py_error + cell option) \<times> agent" where
  "make_random_move sets_accepted r st =
     (let remainingChoice = all_cells st |-| moves_made st |-| mines st
      in if remainingChoice \<noteq> {||}
         then (case random_sample_pop sets_accepted r remainingChoice of
                 Inl e \<Rightarrow> (Inl e, st)
               | Inr c \<Rightarrow> (Inr (Some c), st))
         else (Inr None, st))"

section \<open>Class Minesweeper\<close>

text \<open>
  The game object, as far as the observations passed to the agent depend on it: the
  dimensions and the board, a list of rows of booleans. \<open>getitem\<close> is Python's list
  indexing, where a negative index counts from the end and an index out of range raises
  \<open>IndexError\<close> (\<open>None\<close>). \<open>nearby_mines\<close> indexes the board only under its bounds test.
\<close>


record minesweeper =
  board_height :: int
  board_width :: int
  board :: "bool list list"

definition getitem :: "'a list \<Rightarrow> int \<Rightarrow> 'a option" where
  "getitem xs i =
     (if 0 \<le> i \<and> i < int (length xs) then Some (xs ! nat i)
      else if - int (length xs) \<le> i \<and> i < 0 then Some (xs ! nat (int (length xs) + i))
      else None)"

definition is_mine :: "minesweeper \<Rightarrow> cell \<Rightarrow> bool option" where
  "is_mine g cell =
     (case cell of (i, j) \<Rightarrow>
        (case getitem (board g) i of None \<Rightarrow> None | Some row \<Rightarrow> getitem row j))"

definition nearby_step :: "minesweeper \<Rightarrow> cell \<Rightarrow> cell \<Rightarrow> int \<Rightarrow> int" where
  "nearby_step g cell c n =
     (case c of (i, j) \<Rightarrow>
        if (i, j) = cell then n
        else if 0 \<le> i \<and> i < board_height g \<and> 0 \<le> j \<and> j < board_width g
             then (if board g ! nat i ! nat j then n + 1 else n)
             else n)"

definition nearby_mines :: "minesweeper \<Rightarrow> cell \<Rightarrow> int" where
  "nearby_mines g cell =
     fold (\<lambda>i acc. fold (\<lambda>j acc'. nearby_step g cell (i, j) acc')
                      [snd cell - 1 .. snd cell + 1] acc)
          [fst cell - 1 .. fst cell + 1] 0"

text \<open>
  \<open>Minesweeper.__init__\<close> builds \<open>height\<close> rows of \<open>width\<close> entries each. A run of the
  agent on consistent observations starts from the agent made for the board's
  dimensions; every cell passed to \<open>add_knowledge\<close> is a cell of the grid that is not a
  mine, and the count passed is the board's \<open>nearby_mines\<close> of that cell. The two
  queries may come between the observations.
\<close>

definition wf_board :: "minesweeper \<Rightarrow> bool" where
  "wf_board g \<longleftrightarrow>
     length (board g) = nat (board_height g)
     \<and> (\<forall>row \<in> set (board g). length row = nat (board_width g))"

inductive consistent_run :: "minesweeper \<Rightarrow> agent \<Rightarrow> bool" for g where
  start: "consistent_run g (MinesweeperAI (board_height g) (board_width g))"
| observe: "consistent_run g st \<Longrightarrow>
     0 \<le> i \<Longrightarrow> i < board_height g \<Longrightarrow> 0 \<le> j \<Longrightarrow> j < board_width g \<Longrightarrow>
     is_mine g (i, j) = Some False \<Longrightarrow>
     add_knowledge st (i, j) (nearby_mines g (i, j)) = Some st' \<Longrightarrow>
     consistent_run g st'"
| query_safe: "consistent_run g st \<Longrightarrow> consistent_run g (snd (make_safe_move iter st))"
| query_random: "consistent_run g st \<Longrightarrow> consistent_run g (snd (make_random_move v r st))"

section \<open>Auxiliary notions for the proofs\<close>

text \<open>
  Removing a set of cells from a sentence at once: as mines (the count drops by the number
  of cells removed) and as safe cells (the count stays).
\<close>


definition narrow_mines :: "cell fset \<Rightarrow> sentence \<Rightarrow> sentence" where
  "narrow_mines C s = s\<lparr>cells := cells s |-| C, count := count s - int (fcard (cells s |\<inter>| C))\<rparr>"

definition narrow_safes :: "cell fset \<Rightarrow> sentence \<Rightarrow> sentence" where
  "narrow_safes C s = s\<lparr>cells := cells s |-| C\<rparr>"

text \<open>
  The sentence that \<open>add_knowledge\<close> builds from \<open>sentence = A\<close> and \<open>sentence2 = B\<close>, the
  condition under which it builds one, and a count that no set of cells can have.
\<close>


definition reduced :: "cell fset \<Rightarrow> sentence \<Rightarrow> sentence \<Rightarrow> sentence" where
  "reduced moves A B = Sentence (cells B |-| cells A |-| moves) (count B - count A)"

definition inferable :: "sentence \<Rightarrow> sentence \<Rightarrow> bool" where
  "inferable A B \<longleftrightarrow> A \<noteq> B \<and> cells A \<noteq> {||} \<and> cells B \<noteq> {||} \<and> cells A |\<subseteq>| cells B"

definition degenerate :: "sentence \<Rightarrow> bool" where
  "degenerate s \<longleftrightarrow> count s < 0 \<or> int (fcard (cells s)) < count s"

text \<open>The test of \<open>return_neighbors\<close> on a cell of the 3 by 3 window around \<open>home\<close>.\<close>


definition adjacent :: "agent \<Rightarrow> cell \<Rightarrow> cell \<Rightarrow> bool" where
  "adjacent st home c \<longleftrightarrow>
     fst c \<ge> 0 \<and> fst c < height st \<and> snd c \<ge> 0 \<and> snd c < width st \<and> c \<noteq> home"

text \<open>
  \<open>narrowed s s'\<close>: \<open>s'\<close> is what the sentence object \<open>s\<close> has become after some calls of
  its own \<open>mark_mine\<close> and \<open>mark_safe\<close>. \<open>agent_op\<close>: one call of a method of the agent
  that returns. \<open>grows\<close>: the sets of the first state are within those of the second,
  and the second list has, index by index, the narrowed sentences of the first.
\<close>


inductive narrowed :: "sentence \<Rightarrow> sentence \<Rightarrow> bool" where
  same: "narrowed s s"
| mine: "narrowed s s' \<Longrightarrow> narrowed s (Sentence_mark_mine s' c)"
| safe: "narrowed s s' \<Longrightarrow> narrowed s (Sentence_mark_safe s' c)"

inductive agent_op :: "agent \<Rightarrow> agent \<Rightarrow> bool" where
  op_mark_mine: "agent_op st (mark_mine st c)"
| op_mark_safe: "agent_op st (mark_safe st c)"
| op_add_knowledge: "add_knowledge st c n = Some st' \<Longrightarrow> agent_op st st'"
| op_make_safe_move: "agent_op st (snd (make_safe_move iter st))"
| op_make_random_move: "agent_op st (snd (make_random_move v r st))"

definition grows :: "agent \<Rightarrow> agent \<Rightarrow> bool" where
  "grows st st' \<longleftrightarrow>
     moves_made st |\<subseteq>| moves_made st' \<and> mines st |\<subseteq>| mines st' \<and> safes st |\<subseteq>| safes st'
     \<and> length (knowledge st) \<le> length (knowledge st')
     \<and> (\<forall>i < length (knowledge st). narrowed (knowledge st ! i) (knowledge st' ! i))"

text \<open>
  For the proofs: the cells where the board has a mine, a sentence that is true of the
  board, and an agent all of whose knowledge is true of the board.
\<close>

definition mine_at :: "minesweeper \<Rightarrow> cell \<Rightarrow> bool" where
  "mine_at g c \<longleftrightarrow>
     0 \<le> fst c \<and> fst c < board_height g \<and> 0 \<le> snd c \<and> snd c < board_width g
     \<and> board g ! nat (fst c) ! nat (snd c)"

definition holds_on :: "minesweeper \<Rightarrow> sentence \<Rightarrow> bool" where
  "holds_on g s \<longleftrightarrow> count s = int (fcard (ffilter (mine_at g) (cells s)))"

definition sound :: "minesweeper \<Rightarrow> agent \<Rightarrow> bool" where
  "sound g st \<longleftrightarrow>
     (\<forall>s \<in> set (knowledge st). holds_on g s \<and> cells s |\<inter>| (mines st |\<union>| safes st) = {||})
     \<and> (\<forall>c. c |\<in>| mines st \<longrightarrow> mine_at g c)
     \<and> (\<forall>c. c |\<in>| safes st \<longrightarrow> \<not> mine_at g c)
     \<and> (\<forall>c. c |\<in>| moves_made st \<longrightarrow> \<not> mine_at g c)"

text \<open>
  For the inference loops: the one sentence over a set of cells that is true of the
  board; a list that holds the derived sentence of each of its pairs; and the state of
  the loops at indices \<open>i\<close> and \<open>j\<close>, in which every pair before \<open>(i, j)\<close> has its derived
  sentence in the list or gets it from a pair that the inner loop has yet to reach.
\<close>

definition true_sentence :: "minesweeper \<Rightarrow> cell fset \<Rightarrow> sentence" where
  "true_sentence g C = \<lparr>cells = C, count = int (fcard (ffilter (mine_at g) C))\<rparr>"


definition closed :: "cell fset \<Rightarrow> sentence list \<Rightarrow> bool" where
  "closed m k \<longleftrightarrow> (\<forall>A \<in> set k. \<forall>B \<in> set k. inferable A B \<longrightarrow> reduced m A B \<in> set k)"

definition examined :: "cell fset \<Rightarrow> nat \<Rightarrow> nat \<Rightarrow> sentence list \<Rightarrow> bool" where
  "examined m i j k \<longleftrightarrow>
     (\<forall>s \<in> set k. cells s |\<inter>| m = {||})
     \<and> (\<forall>a < i. \<forall>b < length k. a < length k \<longrightarrow> inferable (k ! a) (k ! b) \<longrightarrow>
           reduced m (k ! a) (k ! b) \<in> set k
           \<or> (i < length k \<and> (\<exists>e \<ge> j. e < length k \<and> inferable (k ! i) (k ! e)
                 \<and> reduced m (k ! i) (k ! e) = reduced m (k ! a) (k ! b))))
     \<and> (\<forall>b < j. b < length k \<longrightarrow> i < length k \<longrightarrow> inferable (k ! i) (k ! b) \<longrightarrow>
           reduced m (k ! i) (k ! b) \<in> set k)"


section \<open>The marking loops\<close>

lemma narrow_mines_empty: "narrow_mines {||} = id"
  by (rule ext) (simp add: narrow_mines_def)

lemma narrow_safes_empty: "narrow_safes {||} = id"
  by (rule ext) (simp add: narrow_safes_def)

lemma fcard_inter_finsert:
  assumes "c |\<in>| A"
  shows "fcard (A |\<inter>| finsert c C) = Suc (fcard ((A |-| {|c|}) |\<inter>| C))"
proof -
  have "A |\<inter>| finsert c C = finsert c ((A |-| {|c|}) |\<inter>| C)"
    using assms by auto
  moreover have "c |\<notin>| (A |-| {|c|}) |\<inter>| C"
    by simp
  ultimately show ?thesis
    by (simp add: fcard_finsert_disjoint)
qed

lemma narrow_mines_step:
  "narrow_mines C (Sentence_mark_mine s c) = narrow_mines (finsert c C) s"
proof (cases "c |\<in>| cells s")
  case True
  have "cells s |-| {|c|} |-| C = cells s |-| finsert c C"
    by auto
  with True fcard_inter_finsert [OF True, of C] show ?thesis
    by (simp add: narrow_mines_def Sentence_mark_mine_def)
next
  case False
  then have "cells s |\<inter>| finsert c C = cells s |\<inter>| C" "cells s |-| finsert c C = cells s |-| C"
    by auto
  with False show ?thesis
    by (simp add: narrow_mines_def Sentence_mark_mine_def)
qed

lemma narrow_safes_step:
  "narrow_safes C (Sentence_mark_safe s c) = narrow_safes (finsert c C) s"
proof -
  have "cells s |-| {|c|} |-| C = cells s |-| finsert c C"
    by auto
  moreover have "c |\<notin>| cells s \<Longrightarrow> cells s |-| finsert c C = cells s |-| C"
    by auto
  ultimately show ?thesis
    by (simp add: narrow_safes_def Sentence_mark_safe_def)
qed

lemma mark_mines_eq:
  "mark_mines st cs =
     st\<lparr>mines := mines st |\<union>| fset_of_list cs,
        knowledge := map (narrow_mines (fset_of_list cs)) (knowledge st)\<rparr>"
proof (induction cs arbitrary: st)
  case Nil
  show ?case by (simp add: mark_mines_def narrow_mines_empty)
next
  case (Cons c cs)
  have "mark_mines st (c # cs) = mark_mines (mark_mine st c) cs"
    by (simp add: mark_mines_def)
  also have "\<dots> = (mark_mine st c)\<lparr>mines := mines (mark_mine st c) |\<union>| fset_of_list cs,
        knowledge := map (narrow_mines (fset_of_list cs)) (knowledge (mark_mine st c))\<rparr>"
    by (rule Cons.IH)
  also have "\<dots> = st\<lparr>mines := mines st |\<union>| fset_of_list (c # cs),
        knowledge := map (narrow_mines (fset_of_list (c # cs))) (knowledge st)\<rparr>"
    by (simp add: mark_mine_def narrow_mines_step comp_def)
  finally show ?case .
qed

lemma mark_safes_eq:
  "mark_safes st cs =
     st\<lparr>safes := safes st |\<union>| fset_of_list cs,
        knowledge := map (narrow_safes (fset_of_list cs)) (knowledge st)\<rparr>"
proof (induction cs arbitrary: st)
  case Nil
  show ?case by (simp add: mark_safes_def narrow_safes_empty)
next
  case (Cons c cs)
  have "mark_safes st (c # cs) = mark_safes (mark_safe st c) cs"
    by (simp add: mark_safes_def)
  also have "\<dots> = (mark_safe st c)\<lparr>safes := safes (mark_safe st c) |\<union>| fset_of_list cs,
        knowledge := map (narrow_safes (fset_of_list cs)) (knowledge (mark_safe st c))\<rparr>"
    by (rule Cons.IH)
  also have "\<dots> = st\<lparr>safes := safes st |\<union>| fset_of_list (c # cs),
        knowledge := map (narrow_safes (fset_of_list (c # cs))) (knowledge st)\<rparr>"
    by (simp add: mark_safe_def narrow_safes_step comp_def)
  finally show ?case .
qed

lemma mark_mines_any_order:
  "fset_of_list xs = fset_of_list ys \<Longrightarrow> mark_mines st xs = mark_mines st ys"
  by (simp add: mark_mines_eq)

lemma mark_safes_any_order:
  "fset_of_list xs = fset_of_list ys \<Longrightarrow> mark_safes st xs = mark_safes st ys"
  by (simp add: mark_safes_eq)

lemma fset_of_sorted_list: "fset_of_list (sorted_list_of_fset A) = A"
  by (auto simp: fset_of_list.rep_eq)

lemma propagate_sentence_eq:
  "propagate_sentence i st =
     (let ms = known_mines (knowledge st ! i);
          st1 = st\<lparr>mines := mines st |\<union>| ms, knowledge := map (narrow_mines ms) (knowledge st)\<rparr>;
          ss = known_safes (knowledge st1 ! i)
      in st1\<lparr>safes := safes st1 |\<union>| ss, knowledge := map (narrow_safes ss) (knowledge st1)\<rparr>)"
  by (simp add: propagate_sentence_def Let_def mark_mines_eq mark_safes_eq fset_of_sorted_list
      narrow_mines_empty narrow_safes_empty)

section \<open>The inference loops\<close>

lemma infer_pair_eq:
  "infer_pair m A B k =
     (if A \<noteq> B \<and> cells B \<noteq> {||} \<and> cells A |\<subseteq>| cells B \<and> reduced m A B \<notin> set k
      then k @ [reduced m A B] else k)"
  by (simp add: infer_pair_def reduced_def Let_def)

lemma infer_loop_rule:
  assumes run: "infer_loop m i j k = Some y"
    and init: "I k"
    and step: "\<And>k a b. I k \<Longrightarrow> a < length k \<Longrightarrow> b < length k \<Longrightarrow> cells (k ! a) \<noteq> {||}
                 \<Longrightarrow> I (infer_pair m (k ! a) (k ! b) k)"
  shows "I y"
proof -
  have "m = m \<longrightarrow> I k \<longrightarrow> I y"
  proof (rule infer_loop.raw_induct
      [where P = "\<lambda>m' i j k y. m' = m \<longrightarrow> I k \<longrightarrow> I y", OF _ run])
    fix loop m' i j k y
    assume ih: "\<And>m' i j k y. loop m' i j k = Some y \<Longrightarrow> m' = m \<longrightarrow> I k \<longrightarrow> I y"
      and body: "(if i < length k
         then if cells (k ! i) \<noteq> {||} \<and> j < length k
              then loop m' i (j + 1) (infer_pair m' (k ! i) (k ! j) k)
              else loop m' (i + 1) 0 k
         else Some k) = Some y"
    show "m' = m \<longrightarrow> I k \<longrightarrow> I y"
    proof (intro impI)
      assume m: "m' = m" and k: "I k"
      show "I y"
      proof (cases "i < length k")
        case False
        with body k show ?thesis by simp
      next
        case True
        show ?thesis
        proof (cases "cells (k ! i) \<noteq> {||} \<and> j < length k")
          case True
          with \<open>i < length k\<close> body
          have r: "loop m' i (j + 1) (infer_pair m' (k ! i) (k ! j) k) = Some y"
            by simp
          from step [OF k \<open>i < length k\<close>] True m
          have "I (infer_pair m' (k ! i) (k ! j) k)" by simp
          with ih [OF r] m show ?thesis by simp
        next
          case False
          with \<open>i < length k\<close> body have r: "loop m' (i + 1) 0 k = Some y"
            by (simp split: if_splits)
          with ih [OF r] m k show ?thesis by simp
        qed
      qed
    qed
  qed
  with run init show ?thesis by blast
qed

lemma infer_loop_extends:
  assumes "infer_loop m i j k = Some y"
  shows "\<exists>zs. y = k @ zs"
proof -
  have "\<exists>zs. y = k @ zs"
  proof (rule infer_loop_rule [OF assms, where I = "\<lambda>k'. \<exists>zs. k' = k @ zs"])
    show "\<exists>zs. k = k @ zs" by simp
  next
    fix k' a b
    assume "\<exists>zs. k' = k @ zs"
    then show "\<exists>zs. infer_pair m (k' ! a) (k' ! b) k' = k @ zs"
      by (auto simp: infer_pair_eq)
  qed
  then show ?thesis .
qed

lemma infer_loop_distinct:
  assumes "infer_loop m i j k = Some y" and "distinct k"
  shows "distinct y"
  by (rule infer_loop_rule [OF assms(1), where I = distinct])
     (auto simp: assms(2) infer_pair_eq)

lemma infer_loop_all:
  assumes run: "infer_loop m i j k = Some y"
    and init: "\<forall>s \<in> set k. P s"
    and closed: "\<And>A B. P A \<Longrightarrow> P B \<Longrightarrow> inferable A B \<Longrightarrow> P (reduced m A B)"
  shows "\<forall>s \<in> set y. P s"
proof (rule infer_loop_rule [OF run, where I = "\<lambda>k. \<forall>s \<in> set k. P s"])
  show "\<forall>s \<in> set k. P s" by (rule init)
next
  fix k a b
  assume k: "\<forall>s \<in> set k. P s" and a: "a < length k" and b: "b < length k"
    and ne: "cells (k ! a) \<noteq> {||}"
  from k a b have "P (k ! a)" "P (k ! b)" by simp_all
  with closed [of "k ! a" "k ! b"] ne k
  show "\<forall>s \<in> set (infer_pair m (k ! a) (k ! b) k). P s"
    by (auto simp: infer_pair_eq inferable_def)
qed

text \<open>Every appended sentence is new and comes from a pair of the list.\<close>

lemma infer_loop_appended:
  assumes run: "infer_loop m i j k = Some y"
  shows "\<exists>zs. y = k @ zs \<and> distinct zs \<and> set zs \<inter> set k = {}
           \<and> (\<forall>z \<in> set zs. \<exists>A \<in> set y. \<exists>B \<in> set y. inferable A B \<and> z = reduced m A B)"
proof -
  let ?I = "\<lambda>k'. \<exists>zs. k' = k @ zs \<and> distinct zs \<and> set zs \<inter> set k = {}
           \<and> (\<forall>z \<in> set zs. \<exists>A \<in> set k'. \<exists>B \<in> set k'. inferable A B \<and> z = reduced m A B)"
  have "?I y"
  proof (rule infer_loop_rule [OF run, where I = ?I])
    show "?I k" by simp
  next
    fix k' a b
    assume I: "?I k'" and a: "a < length k'" and b: "b < length k'"
      and ne: "cells (k' ! a) \<noteq> {||}"
    from I obtain zs where zs: "k' = k @ zs" "distinct zs" "set zs \<inter> set k = {}"
      "\<forall>z \<in> set zs. \<exists>A \<in> set k'. \<exists>B \<in> set k'. inferable A B \<and> z = reduced m A B"
      by blast
    let ?r = "reduced m (k' ! a) (k' ! b)"
    show "?I (infer_pair m (k' ! a) (k' ! b) k')"
    proof (cases "k' ! a \<noteq> k' ! b \<and> cells (k' ! b) \<noteq> {||} \<and> cells (k' ! a) |\<subseteq>| cells (k' ! b)
                   \<and> ?r \<notin> set k'")
      case False
      then have "infer_pair m (k' ! a) (k' ! b) k' = k'"
        by (auto simp: infer_pair_eq)
      with I show ?thesis by simp
    next
      case True
      then have eq: "infer_pair m (k' ! a) (k' ! b) k' = k @ (zs @ [?r])"
        by (simp add: infer_pair_eq zs(1))
      from True zs(1) have new: "?r \<notin> set zs" "?r \<notin> set k" by auto
      from True ne have inf: "inferable (k' ! a) (k' ! b)"
        by (simp add: inferable_def)
      from a b have mem: "k' ! a \<in> set k'" "k' ! b \<in> set k'" by simp_all
      have d: "distinct (zs @ [?r])" using zs(2) new by simp
      have e: "set (zs @ [?r]) \<inter> set k = {}" using zs(3) new by simp
      have f: "\<forall>z \<in> set (zs @ [?r]). \<exists>A \<in> set (k @ (zs @ [?r])). \<exists>B \<in> set (k @ (zs @ [?r])).
                 inferable A B \<and> z = reduced m A B"
      proof
        fix z assume "z \<in> set (zs @ [?r])"
        then consider "z \<in> set zs" | "z = ?r" by auto
        then show "\<exists>A \<in> set (k @ (zs @ [?r])). \<exists>B \<in> set (k @ (zs @ [?r])).
                 inferable A B \<and> z = reduced m A B"
        proof cases
          case 1
          with zs(4) obtain A B where "A \<in> set k'" "B \<in> set k'" "inferable A B" "z = reduced m A B"
            by blast
          then show ?thesis unfolding zs(1) by auto
        next
          case 2
          with inf mem show ?thesis unfolding zs(1) by auto
        qed
      qed
      from d e f show ?thesis unfolding eq by blast
    qed
  qed
  then show ?thesis .
qed

text \<open>Every pair of the list at the start of the loops is examined.\<close>

lemma infer_loop_pairs:
  assumes "infer_loop m i j k = Some y"
  shows "(\<exists>zs. y = k @ zs)
     \<and> (\<forall>a b. a < length k \<and> b < length k \<and> (i < a \<or> (a = i \<and> j \<le> b))
               \<and> inferable (k ! a) (k ! b) \<longrightarrow> reduced m (k ! a) (k ! b) \<in> set y)"
proof (rule infer_loop.raw_induct
    [where P = "\<lambda>m i j k y. (\<exists>zs. y = k @ zs)
     \<and> (\<forall>a b. a < length k \<and> b < length k \<and> (i < a \<or> (a = i \<and> j \<le> b))
               \<and> inferable (k ! a) (k ! b) \<longrightarrow> reduced m (k ! a) (k ! b) \<in> set y)", OF _ assms])
  fix loop m i j k y
  assume 1: "\<And>m i j k y. loop m i j k = Some y \<Longrightarrow> (\<exists>zs. y = k @ zs)
     \<and> (\<forall>a b. a < length k \<and> b < length k \<and> (i < a \<or> (a = i \<and> j \<le> b))
               \<and> inferable (k ! a) (k ! b) \<longrightarrow> reduced m (k ! a) (k ! b) \<in> set y)"
     "(if i < length k
         then if cells (k ! i) \<noteq> {||} \<and> j < length k
              then loop m i (j + 1) (infer_pair m (k ! i) (k ! j) k)
              else loop m (i + 1) 0 k
         else Some k) = Some y"
  show "(\<exists>zs. y = k @ zs)
     \<and> (\<forall>a b. a < length k \<and> b < length k \<and> (i < a \<or> (a = i \<and> j \<le> b))
               \<and> inferable (k ! a) (k ! b) \<longrightarrow> reduced m (k ! a) (k ! b) \<in> set y)"
  proof (cases "i < length k")
    case False
    with 1(2) show ?thesis by auto
  next
    case i: True
    show ?thesis
    proof (cases "cells (k ! i) \<noteq> {||} \<and> j < length k")
      case True
      let ?k = "infer_pair m (k ! i) (k ! j) k"
      from True i 1(2) have r: "loop m i (j + 1) ?k = Some y"
        by simp
      from 1(1) [OF r] obtain zs where y: "y = ?k @ zs"
        and ih: "\<forall>a b. a < length ?k \<and> b < length ?k \<and> (i < a \<or> (a = i \<and> j + 1 \<le> b))
               \<and> inferable (?k ! a) (?k ! b) \<longrightarrow> reduced m (?k ! a) (?k ! b) \<in> set y"
        by blast
      have "\<exists>us. ?k = k @ us"
        by (simp add: infer_pair_eq)
      then obtain us where k': "?k = k @ us" ..
      have ext: "\<exists>zs. y = k @ zs" using y k' by simp
      have here: "inferable (k ! i) (k ! j) \<longrightarrow> reduced m (k ! i) (k ! j) \<in> set ?k"
        by (auto simp: infer_pair_eq inferable_def)
      have "reduced m (k ! a) (k ! b) \<in> set y"
        if "a < length k" "b < length k" "i < a \<or> (a = i \<and> j \<le> b)" "inferable (k ! a) (k ! b)"
        for a b
      proof (cases "a = i \<and> b = j")
        case True
        with that here y show ?thesis by auto
      next
        case False
        with that have "i < a \<or> (a = i \<and> j + 1 \<le> b)" by auto
        moreover from that k' have "a < length ?k" "b < length ?k" "?k ! a = k ! a" "?k ! b = k ! b"
          by (simp_all add: nth_append)
        ultimately show ?thesis using ih that(4) by metis
      qed
      with ext show ?thesis by blast
    next
      case False
      with i 1(2) have r: "loop m (i + 1) 0 k = Some y"
        by (simp split: if_splits)
      from 1(1) [OF r] have ext: "\<exists>zs. y = k @ zs"
        and ih: "\<forall>a b. a < length k \<and> b < length k \<and> (i + 1 < a \<or> (a = i + 1 \<and> 0 \<le> b))
               \<and> inferable (k ! a) (k ! b) \<longrightarrow> reduced m (k ! a) (k ! b) \<in> set y"
        by blast+
      have "reduced m (k ! a) (k ! b) \<in> set y"
        if "a < length k" "b < length k" "i < a \<or> (a = i \<and> j \<le> b)" "inferable (k ! a) (k ! b)"
        for a b
      proof (cases "a = i")
        case True
        with that False show ?thesis by (auto simp: inferable_def)
      next
        case False
        with that have "i + 1 < a \<or> (a = i + 1 \<and> 0 \<le> b)" by auto
        with ih that show ?thesis by blast
      qed
      with ext show ?thesis by blast
    qed
  qed
qed

section \<open>The neighbours of a cell\<close>

lemma neighbor_step_eq:
  "neighbor_step st home c (N, m) =
     (if adjacent st home c then (finsert c N, if c |\<in>| mines st then m + 1 else m) else (N, m))"
  by (cases c) (simp add: neighbor_step_def adjacent_def)

lemma fold_row_product:
  "fold (\<lambda>x acc. f (y, x) acc) xs acc = fold f (map (Pair y) xs) acc"
  by (induction xs arbitrary: acc) simp_all

lemma fold_grid_product:
  "fold (\<lambda>y acc. fold (\<lambda>x acc'. f (y, x) acc') xs acc) ys acc = fold f (List.product ys xs) acc"
  by (induction ys arbitrary: acc) (simp_all add: fold_row_product)

lemma fold_neighbor_step:
  "fold (neighbor_step st home) cs (N, m) =
     (N |\<union>| fset_of_list (filter (adjacent st home) cs),
      m + int (length (filter (\<lambda>c. adjacent st home c \<and> c |\<in>| mines st) cs)))"
  by (induction cs arbitrary: N m) (auto simp: neighbor_step_eq)

lemma return_neighbors_eq:
  "return_neighbors st (i, j) =
     (fset_of_list (filter (adjacent st (i, j)) (List.product [i - 1 .. i + 1] [j - 1 .. j + 1])),
      int (length (filter (\<lambda>c. adjacent st (i, j) c \<and> c |\<in>| mines st)
                     (List.product [i - 1 .. i + 1] [j - 1 .. j + 1]))))"
  by (simp add: return_neighbors_def fold_grid_product fold_neighbor_step)

lemma fcard_ffilter_of_list:
  assumes "distinct xs"
  shows "fcard (ffilter P (fset_of_list xs)) = length (filter P xs)"
proof -
  have "fset (ffilter P (fset_of_list xs)) = set (filter P xs)"
    by (auto simp: fset_of_list.rep_eq)
  then have "fcard (ffilter P (fset_of_list xs)) = card (set (filter P xs))"
    by (simp only: fcard.rep_eq)
  also have "\<dots> = length (filter P xs)"
    using assms by (intro distinct_card) simp
  finally show ?thesis .
qed

lemma distinct_window: "distinct (List.product [a .. b] [c .. d])"
  by (simp add: distinct_product)


lemma neighbors_mine_count:
  "snd (return_neighbors st (i, j)) = int (fcard (fst (return_neighbors st (i, j)) |\<inter>| mines st))"
proof -
  let ?w = "List.product [i - 1 .. i + 1] [j - 1 .. j + 1]"
  have "fset_of_list (filter (adjacent st (i, j)) ?w) |\<inter>| mines st
      = fset_of_list (filter (\<lambda>c. adjacent st (i, j) c \<and> c |\<in>| mines st) ?w)"
    by (auto simp: fset_of_list.rep_eq)
  moreover have "distinct (filter (\<lambda>c. adjacent st (i, j) c \<and> c |\<in>| mines st) ?w)"
    by (simp add: distinct_window)
  ultimately show ?thesis
    by (simp add: return_neighbors_eq fcard_ffilter_of_list distinct_window)
qed



lemma return_neighbors_reads:
  "height st' = height st \<Longrightarrow> width st' = width st \<Longrightarrow> mines st' = mines st
     \<Longrightarrow> return_neighbors st' c = return_neighbors st c"
proof -
  assume "height st' = height st" "width st' = width st" "mines st' = mines st"
  then have "adjacent st' = adjacent st" "mines st' = mines st"
    by (auto simp: adjacent_def fun_eq_iff)
  then show ?thesis
    by (cases c) (simp add: return_neighbors_eq)
qed

lemma add_sentence_eq:
  "add_sentence st c n =
     (let marked = map (\<lambda>s. Sentence_mark_safe s c) (knowledge st);
          unknown = fst (return_neighbors st c) |-| mines st |-| finsert c (safes st);
          new = Sentence unknown (n - snd (return_neighbors st c))
      in st\<lparr>moves_made := finsert c (moves_made st), safes := finsert c (safes st),
            knowledge := (if unknown \<noteq> {||} \<and> new \<notin> set marked then marked @ [new] else marked)\<rparr>)"
proof -
  let ?st2 = "mark_safe (st\<lparr>moves_made := finsert c (moves_made st)\<rparr>) c"
  have r: "return_neighbors ?st2 c = return_neighbors st c"
    by (rule return_neighbors_reads) (simp_all add: mark_safe_def)
  show ?thesis
    unfolding add_sentence_def Let_def r
    by (simp add: mark_safe_def split: prod.splits)
qed

section \<open>Growth of the agent state\<close>

lemma narrowed_trans: "narrowed s' s'' \<Longrightarrow> narrowed s s' \<Longrightarrow> narrowed s s''"
  by (induction rule: narrowed.induct) (auto intro: narrowed.intros)

lemma grows_refl: "grows st st"
  by (simp add: grows_def narrowed.same)

lemma grows_trans: "grows st st' \<Longrightarrow> grows st' st'' \<Longrightarrow> grows st st''"
  unfolding grows_def
  by (meson fsubset_trans le_trans less_le_trans narrowed_trans)

lemma grows_mark_mine: "grows st (mark_mine st c)"
  by (auto simp: grows_def mark_mine_def intro: narrowed.intros)

lemma grows_mark_safe: "grows st (mark_safe st c)"
  by (auto simp: grows_def mark_safe_def intro: narrowed.intros)

lemma grows_mark_mines: "grows st (mark_mines st cs)"
proof (induction cs arbitrary: st)
  case Nil
  show ?case by (simp add: mark_mines_def grows_refl)
next
  case (Cons c cs)
  have "mark_mines st (c # cs) = mark_mines (mark_mine st c) cs"
    by (simp add: mark_mines_def)
  with grows_trans [OF grows_mark_mine Cons.IH] show ?case by simp
qed

lemma grows_mark_safes: "grows st (mark_safes st cs)"
proof (induction cs arbitrary: st)
  case Nil
  show ?case by (simp add: mark_safes_def grows_refl)
next
  case (Cons c cs)
  have "mark_safes st (c # cs) = mark_safes (mark_safe st c) cs"
    by (simp add: mark_safes_def)
  with grows_trans [OF grows_mark_safe Cons.IH] show ?case by simp
qed

lemma grows_propagate_sentence: "grows st (propagate_sentence i st)"
  unfolding propagate_sentence_def Let_def
  by (auto intro: grows_refl grows_mark_mines grows_mark_safes grows_trans)

lemma grows_fold_propagate: "grows st (fold propagate_sentence is st)"
proof (induction "is" arbitrary: st)
  case Nil
  show ?case by (simp add: grows_refl)
next
  case (Cons i "is")
  from grows_trans [OF grows_propagate_sentence Cons.IH] show ?case by simp
qed

lemma grows_propagate: "grows st (propagate st)"
  by (simp add: propagate_def grows_fold_propagate)

lemma grows_add_sentence: "grows st (add_sentence st c n)"
  by (auto simp: grows_def add_sentence_eq Let_def nth_append intro: narrowed.intros)

lemma grows_infer: "infer st = Some st' \<Longrightarrow> grows st st'"
  by (auto simp: infer_def grows_def nth_append narrowed.same dest!: infer_loop_extends)

lemma grows_add_knowledge: "add_knowledge st c n = Some st' \<Longrightarrow> grows st st'"
  unfolding add_knowledge_def
  by (blast intro: grows_trans grows_add_sentence grows_propagate grows_infer)

lemma grows_agent_op: "agent_op st st' \<Longrightarrow> grows st st'"
  by (induction rule: agent_op.induct)
     (simp_all add: grows_mark_mine grows_mark_safe grows_add_knowledge grows_refl
        make_safe_move_def make_random_move_def Let_def split: sum.splits)

lemma grows_agent_ops: "agent_op\<^sup>*\<^sup>* st st' \<Longrightarrow> grows st st'"
  by (induction rule: rtranclp_induct) (auto intro: grows_refl grows_trans grows_agent_op)

section \<open>The propagation pass\<close>



lemma propagate_sentence_length:
  "length (knowledge (propagate_sentence i st)) = length (knowledge st)"
  by (simp add: propagate_sentence_eq Let_def)














section \<open>Knowledge that is true of the board\<close>

lemma fcard_ffilter_minus_mines:
  assumes "\<forall>c. c |\<in>| C \<longrightarrow> P c"
  shows "int (fcard (ffilter P (A |-| C))) = int (fcard (ffilter P A)) - int (fcard (A |\<inter>| C))"
proof -
  have "ffilter P A = ffilter P (A |-| C) |\<union>| (A |\<inter>| C)"
    using assms by auto
  moreover have "ffilter P (A |-| C) |\<inter>| (A |\<inter>| C) = {||}"
    by auto
  ultimately have "fcard (ffilter P A) = fcard (ffilter P (A |-| C)) + fcard (A |\<inter>| C)"
    by (metis fcard_funion_disjoint)
  then show ?thesis by simp
qed

lemma ffilter_minus_safes:
  assumes "\<forall>c. c |\<in>| C \<longrightarrow> \<not> P c"
  shows "ffilter P (A |-| C) = ffilter P A"
  using assms by auto

lemma holds_on_narrow_mines:
  "holds_on g s \<Longrightarrow> \<forall>c. c |\<in>| C \<longrightarrow> mine_at g c \<Longrightarrow> holds_on g (narrow_mines C s)"
  by (simp add: holds_on_def narrow_mines_def fcard_ffilter_minus_mines)

lemma holds_on_narrow_safes:
  "holds_on g s \<Longrightarrow> \<forall>c. c |\<in>| C \<longrightarrow> \<not> mine_at g c \<Longrightarrow> holds_on g (narrow_safes C s)"
  by (simp add: holds_on_def narrow_safes_def ffilter_minus_safes)

lemma holds_on_known_mines:
  assumes "holds_on g s" and "c |\<in>| known_mines s"
  shows "mine_at g c"
proof -
  from assms have eq: "fcard (ffilter (mine_at g) (cells s)) = fcard (cells s)" and c: "c |\<in>| cells s"
    by (auto simp: holds_on_def known_mines_def split: if_splits)
  have "fset (ffilter (mine_at g) (cells s)) \<subseteq> fset (cells s)"
    by auto
  with eq have "fset (ffilter (mine_at g) (cells s)) = fset (cells s)"
    by (simp add: fcard.rep_eq card_subset_eq)
  with c show ?thesis
    by auto
qed

lemma holds_on_known_safes:
  assumes "holds_on g s" and "c |\<in>| known_safes s"
  shows "\<not> mine_at g c"
proof -
  from assms have "fcard (ffilter (mine_at g) (cells s)) = 0" and c: "c |\<in>| cells s"
    by (auto simp: holds_on_def known_safes_def split: if_splits)
  then have "ffilter (mine_at g) (cells s) = {||}"
    by (simp add: fcard_0_eq)
  with c show ?thesis
    by auto
qed

lemma holds_on_reduced:
  assumes A: "holds_on g A" and B: "holds_on g B" and sub: "cells A |\<subseteq>| cells B"
    and moves: "\<forall>c. c |\<in>| m \<longrightarrow> \<not> mine_at g c"
  shows "holds_on g (reduced m A B)"
proof -
  have "ffilter (mine_at g) (cells B |-| cells A |-| m) = ffilter (mine_at g) (cells B |-| cells A)"
    using moves by (rule ffilter_minus_safes)
  moreover have "ffilter (mine_at g) (cells B)
      = ffilter (mine_at g) (cells B |-| cells A) |\<union>| ffilter (mine_at g) (cells A)"
    using sub by auto
  moreover have "ffilter (mine_at g) (cells B |-| cells A) |\<inter>| ffilter (mine_at g) (cells A) = {||}"
    by auto
  ultimately have "fcard (ffilter (mine_at g) (cells B))
      = fcard (ffilter (mine_at g) (cells B |-| cells A |-| m)) + fcard (ffilter (mine_at g) (cells A))"
    by (metis fcard_funion_disjoint)
  with A B show ?thesis
    by (simp add: holds_on_def reduced_def Sentence_def)
qed



lemma sound_marked_mines:
  assumes s: "sound g st" and C: "\<forall>c. c |\<in>| C \<longrightarrow> mine_at g c"
  shows "sound g (st\<lparr>mines := mines st |\<union>| C, knowledge := map (narrow_mines C) (knowledge st)\<rparr>)"
proof -
  have "holds_on g (narrow_mines C s) \<and> cells (narrow_mines C s) |\<inter>| (mines st |\<union>| C |\<union>| safes st) = {||}"
    if "s \<in> set (knowledge st)" for s
  proof -
    from s that have h: "holds_on g s" and d: "cells s |\<inter>| (mines st |\<union>| safes st) = {||}"
      by (auto simp: sound_def)
    from d have "cells (narrow_mines C s) |\<inter>| (mines st |\<union>| C |\<union>| safes st) = {||}"
      by (auto simp: narrow_mines_def)
    with holds_on_narrow_mines [OF h C] show ?thesis ..
  qed
  moreover from s C have "\<forall>c. c |\<in>| mines st |\<union>| C \<longrightarrow> mine_at g c"
    by (auto simp: sound_def)
  ultimately show ?thesis
    using s by (auto simp: sound_def)
qed

lemma sound_marked_safes:
  assumes s: "sound g st" and C: "\<forall>c. c |\<in>| C \<longrightarrow> \<not> mine_at g c"
  shows "sound g (st\<lparr>safes := safes st |\<union>| C, knowledge := map (narrow_safes C) (knowledge st)\<rparr>)"
proof -
  have "holds_on g (narrow_safes C s) \<and> cells (narrow_safes C s) |\<inter>| (mines st |\<union>| (safes st |\<union>| C)) = {||}"
    if "s \<in> set (knowledge st)" for s
  proof -
    from s that have h: "holds_on g s" and d: "cells s |\<inter>| (mines st |\<union>| safes st) = {||}"
      by (auto simp: sound_def)
    from d have "cells (narrow_safes C s) |\<inter>| (mines st |\<union>| (safes st |\<union>| C)) = {||}"
      by (auto simp: narrow_safes_def)
    with holds_on_narrow_safes [OF h C] show ?thesis ..
  qed
  moreover from s C have "\<forall>c. c |\<in>| safes st |\<union>| C \<longrightarrow> \<not> mine_at g c"
    by (auto simp: sound_def)
  ultimately show ?thesis
    using s by (auto simp: sound_def)
qed

lemma sound_propagate_sentence:
  assumes s: "sound g st" and i: "i < length (knowledge st)"
  shows "sound g (propagate_sentence i st)"
proof -
  let ?ms = "known_mines (knowledge st ! i)"
  let ?st1 = "st\<lparr>mines := mines st |\<union>| ?ms, knowledge := map (narrow_mines ?ms) (knowledge st)\<rparr>"
  let ?ss = "known_safes (knowledge ?st1 ! i)"
  from s i have "holds_on g (knowledge st ! i)"
    by (simp add: sound_def)
  then have "\<forall>c. c |\<in>| ?ms \<longrightarrow> mine_at g c"
    using holds_on_known_mines by blast
  with s have s1: "sound g ?st1"
    by (rule sound_marked_mines)
  with i have "holds_on g (knowledge ?st1 ! i)"
    by (simp add: sound_def)
  then have "\<forall>c. c |\<in>| ?ss \<longrightarrow> \<not> mine_at g c"
    using holds_on_known_safes by blast
  with s1 have "sound g (?st1\<lparr>safes := safes ?st1 |\<union>| ?ss,
      knowledge := map (narrow_safes ?ss) (knowledge ?st1)\<rparr>)"
    by (rule sound_marked_safes)
  then show ?thesis
    by (simp add: propagate_sentence_eq Let_def)
qed

lemma sound_fold_propagate:
  assumes "sound g st" and "\<forall>i \<in> set is. i < length (knowledge st)"
  shows "sound g (fold propagate_sentence is st)"
  using assms
proof (induction "is" arbitrary: st)
  case Nil
  then show ?case by simp
next
  case (Cons i "is")
  from Cons.prems have "sound g (propagate_sentence i st)"
    by (simp add: sound_propagate_sentence)
  moreover from Cons.prems have "\<forall>i' \<in> set is. i' < length (knowledge (propagate_sentence i st))"
    by (simp add: propagate_sentence_length)
  ultimately show ?case
    using Cons.IH by simp
qed

lemma sound_propagate: "sound g st \<Longrightarrow> sound g (propagate st)"
  by (simp add: propagate_def sound_fold_propagate)

lemma sound_infer:
  assumes s: "sound g st" and run: "infer st = Some st'"
  shows "sound g st'"
proof -
  from run obtain k' where loop: "infer_loop (moves_made st) 0 0 (knowledge st) = Some k'"
    and st': "st' = st\<lparr>knowledge := k'\<rparr>"
    by (auto simp: infer_def)
  let ?P = "\<lambda>s. holds_on g s \<and> cells s |\<inter>| (mines st |\<union>| safes st) = {||}"
  have "\<forall>s \<in> set k'. ?P s"
  proof (rule infer_loop_all [OF loop, where P = ?P])
    show "\<forall>s \<in> set (knowledge st). ?P s"
      using s by (simp add: sound_def)
  next
    fix A B
    assume A: "?P A" and B: "?P B" and inf: "inferable A B"
    from s have "\<forall>c. c |\<in>| moves_made st \<longrightarrow> \<not> mine_at g c"
      by (simp add: sound_def)
    with A B inf have "holds_on g (reduced (moves_made st) A B)"
      by (auto simp: inferable_def intro: holds_on_reduced)
    moreover from B have "cells (reduced (moves_made st) A B) |\<inter>| (mines st |\<union>| safes st) = {||}"
      by (auto simp: reduced_def Sentence_def)
    ultimately show "?P (reduced (moves_made st) A B)" ..
  qed
  with s show ?thesis
    by (simp add: sound_def st')
qed



lemma nearby_step_eq:
  "nearby_step g cell c n = (if c \<noteq> cell \<and> mine_at g c then n + 1 else n)"
  by (cases c) (auto simp: nearby_step_def mine_at_def)

lemma fold_nearby_step:
  "fold (nearby_step g cell) cs n
     = n + int (length (filter (\<lambda>c. c \<noteq> cell \<and> mine_at g c) cs))"
  by (induction cs arbitrary: n) (simp_all add: nearby_step_eq)

lemma nearby_mines_eq:
  "nearby_mines g (i, j)
     = int (length (filter (\<lambda>c. c \<noteq> (i, j) \<and> mine_at g c)
                      (List.product [i - 1 .. i + 1] [j - 1 .. j + 1])))"
  by (simp add: nearby_mines_def fold_grid_product fold_nearby_step)

lemma nearby_mines_neighbors:
  assumes "height st = board_height g" and "width st = board_width g"
  shows "nearby_mines g (i, j) = int (fcard (ffilter (mine_at g) (fst (return_neighbors st (i, j)))))"
proof -
  let ?w = "List.product [i - 1 .. i + 1] [j - 1 .. j + 1]"
  have "ffilter (mine_at g) (ffilter (adjacent st (i, j)) (fset_of_list ?w))
      = ffilter (\<lambda>c. c \<noteq> (i, j) \<and> mine_at g c) (fset_of_list ?w)"
    using assms by (auto simp: adjacent_def mine_at_def)
  then show ?thesis
    by (simp add: nearby_mines_eq return_neighbors_eq fcard_ffilter_of_list distinct_window)
qed

lemma Sentence_mark_safe_narrow: "(\<lambda>s. Sentence_mark_safe s c) = narrow_safes {|c|}"
  by (rule ext) (simp add: Sentence_mark_safe_def narrow_safes_def)

lemma sound_add_sentence:
  assumes s: "sound g st" and dims: "height st = board_height g" "width st = board_width g"
    and c: "\<not> mine_at g (i, j)"
  shows "sound g (add_sentence st (i, j) (nearby_mines g (i, j)))"
proof -
  let ?c = "(i, j)"
  let ?marked = "map (\<lambda>s. Sentence_mark_safe s ?c) (knowledge st)"
  let ?N = "fst (return_neighbors st ?c)"
  let ?U = "?N |-| mines st |-| finsert ?c (safes st)"
  let ?new = "Sentence ?U (nearby_mines g ?c - snd (return_neighbors st ?c))"
  let ?st2 = "st\<lparr>safes := safes st |\<union>| {|?c|}, knowledge := map (narrow_safes {|?c|}) (knowledge st)\<rparr>"
  from c have "\<forall>c'. c' |\<in>| {|?c|} \<longrightarrow> \<not> mine_at g c'"
    by simp
  with s have s2: "sound g ?st2"
    by (rule sound_marked_safes)
  have mines: "\<forall>c'. c' |\<in>| mines st \<longrightarrow> mine_at g c'"
    and safes: "\<forall>c'. c' |\<in>| finsert ?c (safes st) \<longrightarrow> \<not> mine_at g c'"
    using s c by (auto simp: sound_def)
  have "int (fcard (ffilter (mine_at g) ?U)) = int (fcard (ffilter (mine_at g) (?N |-| mines st)))"
    using safes by (simp add: ffilter_minus_safes)
  also have "\<dots> = int (fcard (ffilter (mine_at g) ?N)) - int (fcard (?N |\<inter>| mines st))"
    using mines by (rule fcard_ffilter_minus_mines)
  also have "\<dots> = nearby_mines g ?c - snd (return_neighbors st ?c)"
    by (simp add: nearby_mines_neighbors [OF dims] neighbors_mine_count)
  finally have new: "holds_on g ?new"
    by (simp add: holds_on_def Sentence_def)
  have disj: "cells ?new |\<inter>| (mines st |\<union>| finsert ?c (safes st)) = {||}"
    by (auto simp: Sentence_def)
  have eq: "add_sentence st ?c (nearby_mines g ?c)
      = ?st2\<lparr>moves_made := finsert ?c (moves_made st),
              knowledge := (if ?U \<noteq> {||} \<and> ?new \<notin> set (knowledge ?st2)
                            then knowledge ?st2 @ [?new] else knowledge ?st2)\<rparr>"
    by (simp add: add_sentence_eq Let_def Sentence_mark_safe_narrow)
  from s2 c new disj show ?thesis
    unfolding eq by (auto simp: sound_def)
qed

lemma is_mine_False:
  assumes "is_mine g (i, j) = Some False" and "0 \<le> i" and "0 \<le> j"
  shows "\<not> mine_at g (i, j)"
  using assms
  by (auto simp: is_mine_def getitem_def mine_at_def split: option.splits if_splits)

lemma consistent_run_sound:
  assumes "consistent_run g st"
  shows "sound g st \<and> height st = board_height g \<and> width st = board_width g"
  using assms
proof (induction rule: consistent_run.induct)
  case start
  show ?case by (simp add: sound_def MinesweeperAI_def)
next
  case (observe st i j st')
  let ?a = "add_sentence st (i, j) (nearby_mines g (i, j))"
  from observe have "\<not> mine_at g (i, j)"
    by (simp add: is_mine_False)
  with observe.IH have "sound g ?a"
    by (simp add: sound_add_sentence)
  then have "sound g (propagate ?a)"
    by (rule sound_propagate)
  moreover from observe have run: "infer (propagate ?a) = Some st'"
    by (simp add: add_knowledge_def)
  ultimately have "sound g st'"
    by (rule sound_infer)
  moreover have "height st' = height st \<and> width st' = width st"
  proof -
    have "height (fold propagate_sentence is s) = height s \<and> width (fold propagate_sentence is s) = width s"
      for "is" s
      by (induction "is" arbitrary: s) (simp_all add: propagate_sentence_eq Let_def)
    then have "height (propagate ?a) = height ?a \<and> width (propagate ?a) = width ?a"
      by (simp add: propagate_def)
    moreover have "height ?a = height st \<and> width ?a = width st"
      by (simp add: add_sentence_eq Let_def)
    moreover from run have "height st' = height (propagate ?a) \<and> width st' = width (propagate ?a)"
      by (auto simp: infer_def)
    ultimately show ?thesis by simp
  qed
  ultimately show ?case
    using observe.IH by simp
next
  case (query_safe st iter)
  then show ?case by (simp add: make_safe_move_def)
next
  case (query_random st v r)
  then show ?case by (simp add: make_random_move_def Let_def split: sum.splits)
qed

section \<open>Termination and closure of the inference loops\<close>

lemma infer_loop_returns:
  assumes I: "I k"
    and bound: "\<And>k. I k \<Longrightarrow> length k \<le> N"
    and step: "\<And>k a b. I k \<Longrightarrow> a < length k \<Longrightarrow> b < length k \<Longrightarrow> cells (k ! a) \<noteq> {||}
                 \<Longrightarrow> I (infer_pair m (k ! a) (k ! b) k)"
  shows "\<exists>y. infer_loop m i j k = Some y"
  using I
proof (induction "(N - i) * (N + 2) + (N + 1 - j)" arbitrary: i j k rule: less_induct)
  case less
  note k = \<open>I k\<close>
  show ?case
  proof (cases "i < length k")
    case False
    then show ?thesis
      by (subst infer_loop.simps) simp
  next
    case i: True
    from bound [OF k] i have iN: "i < N" by simp
    show ?thesis
    proof (cases "cells (k ! i) \<noteq> {||} \<and> j < length k")
      case True
      let ?k = "infer_pair m (k ! i) (k ! j) k"
      from True i step [OF k] have k': "I ?k" by simp
      from True bound [OF k] have "j < N + 1" by simp
      then have "(N - i) * (N + 2) + (N + 1 - (j + 1)) < (N - i) * (N + 2) + (N + 1 - j)"
        by simp
      from less.hyps [OF this k'] obtain y where "infer_loop m i (j + 1) ?k = Some y" ..
      with True i have "infer_loop m i j k = Some y"
        by (subst infer_loop.simps) simp
      then show ?thesis ..
    next
      case False
      from iN have "N - i = Suc (N - (i + 1))" by simp
      then have "(N - (i + 1)) * (N + 2) + (N + 1 - 0) < (N - i) * (N + 2) + (N + 1 - j)"
        by simp
      from less.hyps [OF this k] obtain y where "infer_loop m (i + 1) 0 k = Some y" ..
      with False i have "infer_loop m i j k = Some y"
        by (subst infer_loop.simps) auto
      then show ?thesis ..
    qed
  qed
qed

lemma holds_on_true_sentence: "holds_on g s \<longleftrightarrow> s = true_sentence g (cells s)"
  by (cases s) (auto simp: holds_on_def true_sentence_def)

lemma distinct_length_le_fcard:
  assumes "distinct zs" and "\<forall>z \<in> set zs. z |\<in>| S"
  shows "length zs \<le> fcard S"
proof -
  from assms(2) have "set zs \<subseteq> fset S" by auto
  then have "card (set zs) \<le> card (fset S)"
    by (intro card_mono) simp_all
  with assms(1) show ?thesis
    by (simp add: distinct_card fcard.rep_eq)
qed

lemma infer_loop_returns_true:
  assumes k: "\<forall>s \<in> set k. holds_on g s" and m: "\<forall>c. c |\<in>| m \<longrightarrow> \<not> mine_at g c"
  shows "\<exists>y. infer_loop m i j k = Some y"
proof -
  define U where "U = fold (\<lambda>s A. cells s |\<union>| A) k {||}"
  have fold_sup: "cells s |\<subseteq>| fold (\<lambda>s A. cells s |\<union>| A) xs A" if "s \<in> set xs" for s xs A
    using that
  proof (induction xs arbitrary: A)
    case Nil
    then show ?case by simp
  next
    case (Cons x xs)
    have mono: "B |\<subseteq>| fold (\<lambda>s A. cells s |\<union>| A) ys B" for ys B
      by (induction ys arbitrary: B) (auto intro: fsubset_trans [rotated])
    from Cons show ?case
    proof (cases "s = x")
      case True
      have "cells x |\<subseteq>| cells x |\<union>| A" by simp
      also have "\<dots> |\<subseteq>| fold (\<lambda>s A. cells s |\<union>| A) xs (cells x |\<union>| A)" by (rule mono)
      finally show ?thesis using True by simp
    next
      case False
      with Cons show ?thesis by simp
    qed
  qed
  have U: "\<forall>s \<in> set k. cells s |\<subseteq>| U"
    unfolding U_def using fold_sup by blast
  define S where "S = true_sentence g |`| fPow U"
  define I where "I = (\<lambda>k'. (\<forall>s \<in> set k'. holds_on g s \<and> cells s |\<subseteq>| U)
      \<and> (\<exists>zs. k' = k @ zs \<and> distinct zs))"
  show ?thesis
  proof (rule infer_loop_returns [where I = I and N = "length k + fcard S"])
    show "I k"
      using k U by (simp add: I_def)
  next
    fix k'
    assume "I k'"
    then obtain zs where zs: "k' = k @ zs" "distinct zs"
      and all: "\<forall>s \<in> set k'. holds_on g s \<and> cells s |\<subseteq>| U"
      by (auto simp: I_def)
    have "\<forall>z \<in> set zs. z |\<in>| S"
    proof
      fix z assume "z \<in> set zs"
      with all zs(1) have "holds_on g z" "cells z |\<subseteq>| U" by auto
      then have "z = true_sentence g (cells z)" "cells z |\<in>| fPow U"
        by (simp_all add: holds_on_true_sentence [symmetric])
      then show "z |\<in>| S"
        unfolding S_def by (metis fimageI)
    qed
    with zs(2) have "length zs \<le> fcard S"
      by (rule distinct_length_le_fcard)
    with zs(1) show "length k' \<le> length k + fcard S"
      by simp
  next
    fix k' a b
    assume Ik: "I k'" and a: "a < length k'" and b: "b < length k'"
    then obtain zs where zs: "k' = k @ zs" "distinct zs"
      and all: "\<forall>s \<in> set k'. holds_on g s \<and> cells s |\<subseteq>| U"
      by (auto simp: I_def)
    let ?r = "reduced m (k' ! a) (k' ! b)"
    show "I (infer_pair m (k' ! a) (k' ! b) k')"
    proof (cases "k' ! a \<noteq> k' ! b \<and> cells (k' ! b) \<noteq> {||} \<and> cells (k' ! a) |\<subseteq>| cells (k' ! b)
                   \<and> ?r \<notin> set k'")
      case False
      then have "infer_pair m (k' ! a) (k' ! b) k' = k'"
        by (auto simp: infer_pair_eq)
      with Ik show ?thesis by simp
    next
      case True
      then have eq: "infer_pair m (k' ! a) (k' ! b) k' = k @ (zs @ [?r])"
        by (simp add: infer_pair_eq zs(1))
      from a b all have A: "holds_on g (k' ! a)" and B: "holds_on g (k' ! b)" "cells (k' ! b) |\<subseteq>| U"
        by simp_all
      from True have "cells (k' ! a) |\<subseteq>| cells (k' ! b)" by simp
      with A B(1) m have "holds_on g ?r"
        by (intro holds_on_reduced) simp_all
      moreover from B(2) have "cells ?r |\<subseteq>| U"
        by (auto simp: reduced_def Sentence_def)
      moreover from True zs have "distinct (zs @ [?r])"
        by auto
      ultimately show ?thesis
        unfolding eq I_def using all zs(1) by auto
    qed
  qed
qed

lemma reduced_commute: "reduced m A (reduced m a B) = reduced m a (reduced m A B)"
  by (auto simp: reduced_def Sentence_def)

lemma reduced_back:
  assumes "cells a |\<subseteq>| cells B" and "cells a |\<inter>| m = {||}"
  shows "reduced m (reduced m a B) B = a"
proof -
  have "cells B |-| (cells B |-| cells a |-| m) |-| m = cells a"
    using assms by auto
  then show ?thesis
    by (cases a) (simp add: reduced_def Sentence_def)
qed

lemma examined_start: "\<forall>s \<in> set k. cells s |\<inter>| m = {||} \<Longrightarrow> examined m 0 0 k"
  by (simp add: examined_def)

lemma examined_end:
  assumes "examined m i j k" and "\<not> i < length k"
  shows "closed m k"
  unfolding closed_def
proof (intro ballI impI)
  fix A B
  assume "A \<in> set k" "B \<in> set k" and inf: "inferable A B"
  then obtain a b where ab: "a < length k" "k ! a = A" "b < length k" "k ! b = B"
    by (metis in_set_conv_nth)
  with assms(2) have "a < i" by simp
  with assms ab inf show "reduced m A B \<in> set k"
    unfolding examined_def by blast
qed

lemma examined_next_outer:
  assumes ex: "examined m i j k" and i: "i < length k"
    and stop: "\<not> (cells (k ! i) \<noteq> {||} \<and> j < length k)"
  shows "examined m (i + 1) 0 k"
proof -
  have none: "\<not> (\<exists>e \<ge> j. e < length k \<and> inferable (k ! i) (k ! e) \<and> P e)" for P
    using stop by (auto simp: inferable_def)
  have "reduced m (k ! a) (k ! b) \<in> set k"
    if "a < i + 1" "b < length k" "a < length k" "inferable (k ! a) (k ! b)" for a b
  proof (cases "a = i")
    case False
    with that have "a < i" by simp
    with ex that none show ?thesis
      unfolding examined_def by blast
  next
    case True
    with that stop have "b < j"
      by (auto simp: inferable_def)
    with ex that True i show ?thesis
      unfolding examined_def by blast
  qed
  then have c2: "\<forall>a < i + 1. \<forall>b < length k. a < length k \<longrightarrow> inferable (k ! a) (k ! b) \<longrightarrow>
           reduced m (k ! a) (k ! b) \<in> set k
           \<or> (i + 1 < length k \<and> (\<exists>e \<ge> 0. e < length k \<and> inferable (k ! (i + 1)) (k ! e)
                 \<and> reduced m (k ! (i + 1)) (k ! e) = reduced m (k ! a) (k ! b)))"
    by blast
  from ex have c1: "\<forall>s \<in> set k. cells s |\<inter>| m = {||}"
    by (simp add: examined_def)
  have c3: "\<forall>b < 0. b < length k \<longrightarrow> i + 1 < length k \<longrightarrow> inferable (k ! (i + 1)) (k ! b) \<longrightarrow>
           reduced m (k ! (i + 1)) (k ! b) \<in> set k"
    by simp
  from c1 c2 c3 show ?thesis
    unfolding examined_def by (intro conjI)
qed

lemma examined_next_inner:
  assumes ex: "examined m i j k" and i: "i < length k"
    and ne: "cells (k ! i) \<noteq> {||}" and j: "j < length k"
  shows "examined m i (j + 1) (infer_pair m (k ! i) (k ! j) k)"
proof -
  let ?A = "k ! i" and ?B = "k ! j"
  let ?D = "reduced m ?A ?B"
  let ?k = "infer_pair m ?A ?B k"
  from ex have disj: "\<forall>s \<in> set k. cells s |\<inter>| m = {||}"
    and J1: "\<And>a b. a < i \<Longrightarrow> b < length k \<Longrightarrow> a < length k \<Longrightarrow> inferable (k ! a) (k ! b) \<Longrightarrow>
           reduced m (k ! a) (k ! b) \<in> set k
           \<or> (\<exists>e \<ge> j. e < length k \<and> inferable ?A (k ! e)
                 \<and> reduced m ?A (k ! e) = reduced m (k ! a) (k ! b))"
    and J2: "\<And>b. b < j \<Longrightarrow> inferable ?A (k ! b) \<Longrightarrow> reduced m ?A (k ! b) \<in> set k"
    using i j unfolding examined_def by (blast, blast, simp)
  have app: "?k = (if inferable ?A ?B \<and> ?D \<notin> set k then k @ [?D] else k)"
    using ne by (auto simp: infer_pair_eq inferable_def)
  have old: "?k ! x = k ! x" if "x < length k" for x
    using that by (simp add: app nth_append)
  have sub: "set k \<subseteq> set ?k"
    by (auto simp: app)
  have len: "length k \<le> length ?k"
    by (simp add: app)
  have here: "inferable ?A ?B \<Longrightarrow> ?D \<in> set ?k"
    by (auto simp: app)
  have disj': "\<forall>s \<in> set ?k. cells s |\<inter>| m = {||}"
    using disj by (auto simp: app reduced_def Sentence_def)
  have part2: "reduced m (?k ! i) (?k ! b) \<in> set ?k"
    if "b < j + 1" "inferable (?k ! i) (?k ! b)" for b
  proof (cases "b = j")
    case True
    with that here i j show ?thesis by (simp add: old)
  next
    case False
    with that have "b < j" by simp
    with that i j J2 [of b] sub show ?thesis by (auto simp: old)
  qed
  have part1: "reduced m (?k ! a) (?k ! b) \<in> set ?k
           \<or> (\<exists>e \<ge> j + 1. e < length ?k \<and> inferable (?k ! i) (?k ! e)
                 \<and> reduced m (?k ! i) (?k ! e) = reduced m (?k ! a) (?k ! b))"
    if a: "a < i" and b: "b < length ?k" and inf: "inferable (?k ! a) (?k ! b)" for a b
  proof (cases "b < length k")
    case True
    from a i have al: "a < length k" by simp
    from inf True al have inf': "inferable (k ! a) (k ! b)" by (simp add: old)
    from J1 [OF a True al inf']
    consider "reduced m (k ! a) (k ! b) \<in> set k"
      | e where "e \<ge> j" "e < length k" "inferable ?A (k ! e)"
          "reduced m ?A (k ! e) = reduced m (k ! a) (k ! b)"
      by blast
    then show ?thesis
    proof cases
      case 1
      with sub True al show ?thesis by (auto simp: old)
    next
      case (2 e)
      show ?thesis
      proof (cases "e = j")
        case True
        with 2 here have "reduced m (k ! a) (k ! b) \<in> set ?k" by auto
        with \<open>b < length k\<close> al show ?thesis by (simp add: old)
      next
        case False
        with 2 have "e \<ge> j + 1" by simp
        moreover from 2 len have "e < length ?k" by simp
        ultimately show ?thesis
          using 2 i al \<open>b < length k\<close> by (auto simp: old)
      qed
    qed
  next
    case False
    with b have appended: "inferable ?A ?B" "?D \<notin> set k" and kk: "?k = k @ [?D]"
      and bn: "b = length k"
      by (auto simp: app split: if_splits)
    from a i have al: "a < length k" by simp
    let ?a = "k ! a"
    from inf al bn kk have inf': "inferable ?a ?D"
      by (simp add: nth_append)
    from al i j disj have da: "cells ?a |\<inter>| m = {||}" and dA: "cells ?A |\<inter>| m = {||}"
      by simp_all
    from inf' have aD: "cells ?a |\<subseteq>| cells ?B |-| cells ?A |-| m" and ane: "cells ?a \<noteq> {||}"
      by (simp_all add: inferable_def reduced_def Sentence_def)
    from appended(1) have AB: "cells ?A |\<subseteq>| cells ?B" and Bne: "cells ?B \<noteq> {||}"
      by (simp_all add: inferable_def)
    from aD have aB: "cells ?a |\<subseteq>| cells ?B" and aA: "cells ?a |\<inter>| cells ?A = {||}"
      by auto
    from aA ne AB aB have "cells ?a \<noteq> cells ?B"
      by auto
    then have "?a \<noteq> ?B" by auto
    with ane Bne aB have infaB: "inferable ?a ?B"
      by (simp add: inferable_def)
    let ?E = "reduced m ?a ?B"
    have AE: "cells ?A |\<subseteq>| cells ?E"
      using AB aA dA by (auto simp: reduced_def Sentence_def)
    have notpending: "\<not> (\<exists>e \<ge> j. e < length k \<and> inferable ?A (k ! e) \<and> reduced m ?A (k ! e) = ?E)"
    proof
      assume "\<exists>e \<ge> j. e < length k \<and> inferable ?A (k ! e) \<and> reduced m ?A (k ! e) = ?E"
      then obtain e where eq: "reduced m ?A (k ! e) = ?E" by blast
      have "cells (reduced m ?A (k ! e)) |\<inter>| cells ?A = {||}"
        by (auto simp: reduced_def Sentence_def)
      then have "cells ?E |\<inter>| cells ?A = {||}"
        unfolding eq .
      with AE ne show False by auto
    qed
    from J1 [OF a j al infaB] notpending have Ein: "?E \<in> set k"
      by blast
    then obtain e where e: "e < length k" "k ! e = ?E"
      by (metis in_set_conv_nth)
    have "?A \<noteq> ?E"
    proof
      assume "?A = ?E"
      then have "?D = ?a"
        using reduced_back [OF aB da] by simp
      with inf' show False by (simp add: inferable_def)
    qed
    with AE ne have infAE: "inferable ?A ?E"
      by (auto simp: inferable_def)
    have same: "reduced m ?A ?E = reduced m ?a ?D"
      by (rule reduced_commute)
    have "e \<noteq> j"
    proof
      assume "e = j"
      with e have eq: "?B = ?E" by simp
      from ane obtain c where c: "c |\<in>| cells ?a" by auto
      with aB have "c |\<in>| cells ?B" by auto
      moreover from c have "c |\<notin>| cells ?E"
        by (simp add: reduced_def Sentence_def)
      ultimately show False
        unfolding eq [symmetric] by simp
    qed
    then consider "e < j" | "e \<ge> j + 1" by linarith
    then show ?thesis
    proof cases
      case 1
      from J2 [OF 1] infAE e have "reduced m ?A ?E \<in> set k" by simp
      with same sub al bn kk show ?thesis
        by (auto simp: nth_append)
    next
      case 2
      moreover from e len have "e < length ?k" by simp
      moreover from e i infAE have "inferable (?k ! i) (?k ! e)" by (simp add: old)
      moreover from e i same al bn kk
      have "reduced m (?k ! i) (?k ! e) = reduced m (?k ! a) (?k ! b)"
        by (simp add: nth_append)
      ultimately show ?thesis by blast
    qed
  qed
  from disj' part1 part2 show ?thesis
    unfolding examined_def using i len by auto
qed

lemma infer_loop_closed:
  assumes run: "infer_loop m i j k = Some y" and ex: "examined m i j k"
  shows "closed m y"
proof -
  have "examined m i j k \<longrightarrow> closed m y"
  proof (rule infer_loop.raw_induct
      [where P = "\<lambda>m i j k y. examined m i j k \<longrightarrow> closed m y", OF _ run])
    fix loop m i j k y
    assume ih: "\<And>m i j k y. loop m i j k = Some y \<Longrightarrow> examined m i j k \<longrightarrow> closed m y"
      and body: "(if i < length k
         then if cells (k ! i) \<noteq> {||} \<and> j < length k
              then loop m i (j + 1) (infer_pair m (k ! i) (k ! j) k)
              else loop m (i + 1) 0 k
         else Some k) = Some y"
    show "examined m i j k \<longrightarrow> closed m y"
    proof
      assume ex: "examined m i j k"
      show "closed m y"
      proof (cases "i < length k")
        case False
        with body have "y = k" by simp
        with examined_end [OF ex False] show ?thesis by simp
      next
        case i: True
        show ?thesis
        proof (cases "cells (k ! i) \<noteq> {||} \<and> j < length k")
          case True
          with i body have "loop m i (j + 1) (infer_pair m (k ! i) (k ! j) k) = Some y"
            by simp
          from ih [OF this] examined_next_inner [OF ex i] True show ?thesis
            by blast
        next
          case False
          with i body have "loop m (i + 1) 0 k = Some y"
            by (simp split: if_splits)
          from ih [OF this] examined_next_outer [OF ex i False] show ?thesis
            by blast
        qed
      qed
    qed
  qed
  with ex show ?thesis by blast
qed

lemma propagate_moves_made: "moves_made (propagate st) = moves_made st"
proof -
  have "moves_made (fold propagate_sentence is s) = moves_made s" for "is" s
    by (induction "is" arbitrary: s) (simp_all add: propagate_sentence_eq Let_def)
  then show ?thesis by (simp add: propagate_def)
qed

lemma moves_within_safes_step:
  assumes "moves_made st |\<subseteq>| safes st"
  shows "moves_made (propagate (add_sentence st c n)) |\<subseteq>| safes (propagate (add_sentence st c n))"
proof -
  let ?a = "add_sentence st c n"
  from assms have "moves_made ?a |\<subseteq>| safes ?a"
    by (auto simp: add_sentence_eq Let_def)
  moreover have "safes ?a |\<subseteq>| safes (propagate ?a)"
    using grows_propagate [of ?a] by (simp add: grows_def)
  ultimately show ?thesis
    by (simp add: propagate_moves_made)
qed

lemma consistent_run_moves:
  assumes "consistent_run g st"
  shows "moves_made st |\<subseteq>| safes st"
  using assms
proof (induction rule: consistent_run.induct)
  case start
  show ?case by (simp add: MinesweeperAI_def)
next
  case (observe st i j st')
  let ?p = "propagate (add_sentence st (i, j) (nearby_mines g (i, j)))"
  from observe have "infer ?p = Some st'"
    by (simp add: add_knowledge_def)
  then have "moves_made st' = moves_made ?p" "safes st' = safes ?p"
    by (auto simp: infer_def)
  with moves_within_safes_step [OF observe.IH] show ?case
    by simp
next
  case (query_safe st iter)
  then show ?case by (simp add: make_safe_move_def)
next
  case (query_random st v r)
  then show ?case by (simp add: make_random_move_def Let_def split: sum.splits)
qed

lemma holds_on_not_degenerate: "holds_on g s \<Longrightarrow> \<not> degenerate s"
proof -
  assume "holds_on g s"
  moreover have "fcard (ffilter (mine_at g) (cells s)) \<le> fcard (cells s)"
    by (rule fcard_mono) auto
  ultimately show ?thesis
    by (simp add: degenerate_def holds_on_def)
qed

lemma reduced_not_empty:
  assumes A: "holds_on g A" and B: "holds_on g B" and inf: "inferable A B"
    and dB: "cells B |\<inter>| m = {||}"
  shows "cells (reduced m A B) \<noteq> {||}"
proof
  assume "cells (reduced m A B) = {||}"
  then have "cells B |-| cells A |-| m = {||}"
    by (simp add: reduced_def Sentence_def)
  with dB have "cells B |\<subseteq>| cells A"
    by auto
  with inf have "cells A = cells B"
    by (auto simp: inferable_def)
  with A B have "A = B"
    by (simp add: holds_on_true_sentence [of g A] holds_on_true_sentence [of g B])
  with inf show False
    by (simp add: inferable_def)
qed

lemma infer_result:
  assumes "infer st = Some st'"
  shows "height st' = height st \<and> width st' = width st \<and> moves_made st' = moves_made st
     \<and> mines st' = mines st \<and> safes st' = safes st
     \<and> (\<exists>zs. knowledge st' = knowledge st @ zs \<and> distinct zs
            \<and> set zs \<inter> set (knowledge st) = {}
            \<and> (\<forall>z \<in> set zs. \<exists>A \<in> set (knowledge st'). \<exists>B \<in> set (knowledge st').
                   inferable A B \<and> z = reduced (moves_made st) A B))"
proof -
  from assms obtain k' where run: "infer_loop (moves_made st) 0 0 (knowledge st) = Some k'"
    and st': "st' = st\<lparr>knowledge := k'\<rparr>"
    by (auto simp: infer_def)
  from st' have frame: "height st' = height st \<and> width st' = width st
      \<and> moves_made st' = moves_made st \<and> mines st' = mines st \<and> safes st' = safes st"
    by simp
  from st' have k': "knowledge st' = k'"
    by simp
  note app = infer_loop_appended [OF run, folded k']
  from frame app show ?thesis
    by blast
qed


section \<open>Sentence: derivations and narrowing\<close>

text \<open>
  C1. \<open>known_mines\<close> is the sentence's cells when their number equals the count and empty
  otherwise; \<open>known_safes\<close> is the cells when the count is 0 and empty otherwise; for a
  count that is negative or larger than the number of cells both are empty.
\<close>

theorem known_mines_known_safes_exact:
  "known_mines S = (if int (fcard (cells S)) = count S then cells S else {||})
   \<and> known_safes S = (if count S = 0 then cells S else {||})
   \<and> (count S < 0 \<or> int (fcard (cells S)) < count S
        \<longrightarrow> known_mines S = {||} \<and> known_safes S = {||})"
  by (auto simp: known_mines_def known_safes_def)

theorem known_mines_known_safes_exact_witness:
  "(count \<lparr>cells = {|(0, 0), (0, 1)|}, count = 3\<rparr> < 0
      \<or> int (fcard (cells \<lparr>cells = {|(0, 0), (0, 1)|}, count = 3\<rparr>))
          < count \<lparr>cells = {|(0, 0), (0, 1)|}, count = 3\<rparr>)
   \<and> known_mines \<lparr>cells = {|(0, 0), (0, 1)|}, count = 3\<rparr> = {||}
   \<and> known_safes \<lparr>cells = {|(0, 0), (0, 1)|}, count = 3\<rparr> = {||}"
proof -
  let ?S = "\<lparr>cells = {|(0, 0), (0, 1)|}, count = 3\<rparr> :: sentence"
  have h: "count ?S < 0 \<or> int (fcard (cells ?S)) < count ?S"
    by code_simp
  from known_mines_known_safes_exact [of ?S] h show ?thesis
    by blast
qed

text \<open>
  C7. If \<open>c\<close> is in the sentence's cells, \<open>mark_mine\<close> removes it and lowers the count by
  one, \<open>mark_safe\<close> removes it and keeps the count, and each lowers the number of cells
  by exactly one; if \<open>c\<close> is not in the cells, both leave the sentence as it is, so a
  second call after a removal changes nothing.
\<close>


theorem sentence_mark_narrowing:
  "(c |\<in>| cells S \<longrightarrow>
      cells (Sentence_mark_mine S c) = cells S |-| {|c|}
      \<and> count (Sentence_mark_mine S c) = count S - 1
      \<and> cells (Sentence_mark_safe S c) = cells S |-| {|c|}
      \<and> count (Sentence_mark_safe S c) = count S
      \<and> fcard (cells (Sentence_mark_mine S c)) + 1 = fcard (cells S)
      \<and> fcard (cells (Sentence_mark_safe S c)) + 1 = fcard (cells S))
   \<and> (c |\<notin>| cells S \<longrightarrow> Sentence_mark_mine S c = S \<and> Sentence_mark_safe S c = S)
   \<and> Sentence_mark_mine (Sentence_mark_mine S c) c = Sentence_mark_mine S c
   \<and> Sentence_mark_safe (Sentence_mark_mine S c) c = Sentence_mark_mine S c
   \<and> Sentence_mark_safe (Sentence_mark_safe S c) c = Sentence_mark_safe S c
   \<and> Sentence_mark_mine (Sentence_mark_safe S c) c = Sentence_mark_safe S c"
proof -
  have "c |\<in>| cells S \<Longrightarrow> fcard (cells S |-| {|c|}) + 1 = fcard (cells S)"
    by (metis fcard_Suc_fminus1 Suc_eq_plus1)
  then show ?thesis
    by (auto simp: Sentence_mark_mine_def Sentence_mark_safe_def)
qed

theorem sentence_mark_narrowing_witness:
  "(0, 1) |\<in>| cells \<lparr>cells = {|(0, 0), (0, 1)|}, count = 1\<rparr>
   \<and> (1, 1) |\<notin>| cells \<lparr>cells = {|(0, 0), (0, 1)|}, count = 1\<rparr>
   \<and> Sentence_mark_mine \<lparr>cells = {|(0, 0), (0, 1)|}, count = 1\<rparr> (0, 1)
        = \<lparr>cells = {|(0, 0)|}, count = 0\<rparr>
   \<and> Sentence_mark_safe \<lparr>cells = {|(0, 0), (0, 1)|}, count = 1\<rparr> (0, 1)
        = \<lparr>cells = {|(0, 0)|}, count = 1\<rparr>
   \<and> Sentence_mark_mine \<lparr>cells = {|(0, 0), (0, 1)|}, count = 1\<rparr> (1, 1)
        = \<lparr>cells = {|(0, 0), (0, 1)|}, count = 1\<rparr>
   \<and> Sentence_mark_safe \<lparr>cells = {|(0, 0), (0, 1)|}, count = 1\<rparr> (1, 1)
        = \<lparr>cells = {|(0, 0), (0, 1)|}, count = 1\<rparr>"
proof -
  let ?S = "\<lparr>cells = {|(0, 0), (0, 1)|}, count = 1\<rparr> :: sentence"
  have a: "(0, 1) |\<in>| cells ?S" and b: "(1, 1) |\<notin>| cells ?S"
    by simp_all
  have e: "cells ?S |-| {|(0, 1)|} = {|(0, 0)|}"
    by auto
  from sentence_mark_narrowing [of "(0, 1)" ?S] a e
  have m: "cells (Sentence_mark_mine ?S (0, 1)) = {|(0, 0)|}"
     "count (Sentence_mark_mine ?S (0, 1)) = 0"
     "cells (Sentence_mark_safe ?S (0, 1)) = {|(0, 0)|}"
     "count (Sentence_mark_safe ?S (0, 1)) = 1"
    by simp_all
  from sentence_mark_narrowing [of "(1, 1)" ?S] b
  have n: "Sentence_mark_mine ?S (1, 1) = ?S" "Sentence_mark_safe ?S (1, 1) = ?S"
    by blast+
  from a b m n show ?thesis
    by simp
qed

section \<open>Agent: marking\<close>

text \<open>
  C10. \<open>MinesweeperAI.mark_mine\<close> adds the cell to \<open>mines\<close> and applies
  \<open>Sentence.mark_mine\<close> to every entry of \<open>knowledge\<close>; \<open>safes\<close>, \<open>moves_made\<close>,
  \<open>height\<close>, \<open>width\<close>, the length of the list and every sentence that does not contain
  the cell stay as they are. \<open>MinesweeperAI.mark_safe\<close> is symmetric, with \<open>safes\<close> in
  place of \<open>mines\<close>.
\<close>

theorem agent_mark_frame:
  "mines (mark_mine st c) = finsert c (mines st)
   \<and> safes (mark_mine st c) = safes st
   \<and> moves_made (mark_mine st c) = moves_made st
   \<and> height (mark_mine st c) = height st
   \<and> width (mark_mine st c) = width st
   \<and> length (knowledge (mark_mine st c)) = length (knowledge st)
   \<and> (\<forall>i < length (knowledge st).
         knowledge (mark_mine st c) ! i = Sentence_mark_mine (knowledge st ! i) c
         \<and> (c |\<notin>| cells (knowledge st ! i) \<longrightarrow> knowledge (mark_mine st c) ! i = knowledge st ! i))
   \<and> safes (mark_safe st c) = finsert c (safes st)
   \<and> mines (mark_safe st c) = mines st
   \<and> moves_made (mark_safe st c) = moves_made st
   \<and> height (mark_safe st c) = height st
   \<and> width (mark_safe st c) = width st
   \<and> length (knowledge (mark_safe st c)) = length (knowledge st)
   \<and> (\<forall>i < length (knowledge st).
         knowledge (mark_safe st c) ! i = Sentence_mark_safe (knowledge st ! i) c
         \<and> (c |\<notin>| cells (knowledge st ! i) \<longrightarrow> knowledge (mark_safe st c) ! i = knowledge st ! i))"
  by (simp add: mark_mine_def mark_safe_def Sentence_mark_mine_def Sentence_mark_safe_def)


theorem agent_mark_frame_witness:
  "(1::nat) < length (knowledge \<lparr>height = 2, width = 2, moves_made = {||}, mines = {||},
        safes = {||}, knowledge = [\<lparr>cells = {|(0, 0), (0, 1)|}, count = 1\<rparr>,
                                  \<lparr>cells = {|(1, 1)|}, count = 1\<rparr>]\<rparr>)
   \<and> (0, 1) |\<notin>| cells (knowledge \<lparr>height = 2, width = 2, moves_made = {||}, mines = {||},
        safes = {||}, knowledge = [\<lparr>cells = {|(0, 0), (0, 1)|}, count = 1\<rparr>,
                                  \<lparr>cells = {|(1, 1)|}, count = 1\<rparr>]\<rparr> ! 1)
   \<and> knowledge (mark_mine \<lparr>height = 2, width = 2, moves_made = {||}, mines = {||},
        safes = {||}, knowledge = [\<lparr>cells = {|(0, 0), (0, 1)|}, count = 1\<rparr>,
                                  \<lparr>cells = {|(1, 1)|}, count = 1\<rparr>]\<rparr> (0, 1)) ! 1
        = \<lparr>cells = {|(1, 1)|}, count = 1\<rparr>
   \<and> knowledge (mark_safe \<lparr>height = 2, width = 2, moves_made = {||}, mines = {||},
        safes = {||}, knowledge = [\<lparr>cells = {|(0, 0), (0, 1)|}, count = 1\<rparr>,
                                  \<lparr>cells = {|(1, 1)|}, count = 1\<rparr>]\<rparr> (0, 1)) ! 1
        = \<lparr>cells = {|(1, 1)|}, count = 1\<rparr>"
proof -
  let ?st = "\<lparr>height = 2, width = 2, moves_made = {||}, mines = {||},
        safes = {||}, knowledge = [\<lparr>cells = {|(0, 0), (0, 1)|}, count = 1\<rparr>,
                                  \<lparr>cells = {|(1, 1)|}, count = 1\<rparr>]\<rparr> :: agent"
  have a: "(1::nat) < length (knowledge ?st)"
    by simp
  have b: "(0, 1) |\<notin>| cells (knowledge ?st ! 1)"
    by simp
  from agent_mark_frame [of ?st "(0, 1)"]
  have "\<forall>i < length (knowledge ?st).
          (0, 1) |\<notin>| cells (knowledge ?st ! i)
            \<longrightarrow> knowledge (mark_mine ?st (0, 1)) ! i = knowledge ?st ! i"
    and "\<forall>i < length (knowledge ?st).
          (0, 1) |\<notin>| cells (knowledge ?st ! i)
            \<longrightarrow> knowledge (mark_safe ?st (0, 1)) ! i = knowledge ?st ! i"
    by blast+
  with a b have "knowledge (mark_mine ?st (0, 1)) ! 1 = knowledge ?st ! 1"
    and "knowledge (mark_safe ?st (0, 1)) ! 1 = knowledge ?st ! 1"
    by blast+
  with a b show ?thesis
    by simp
qed
section \<open>Agent: move selection\<close>



lemma fold_finsert_row:
  "fold (\<lambda>j acc'. finsert (i, j) acc') js acc = acc |\<union>| fset_of_list (map (Pair i) js)"
  by (induction js arbitrary: acc) auto

lemma fold_finsert_grid:
  "fold (\<lambda>i acc. fold (\<lambda>j acc'. finsert (i, j) acc') js acc) is acc
     = acc |\<union>| fset_of_list (List.product is js)"
  by (induction "is" arbitrary: acc) (auto simp: fold_finsert_row)

lemma all_cells_iff:
  "(i, j) |\<in>| all_cells st \<longleftrightarrow> 0 \<le> i \<and> i < height st \<and> 0 \<le> j \<and> j < width st"
  by (auto simp: all_cells_def fold_finsert_grid fset_of_list.rep_eq)

lemma find_None_fset:
  "fset_of_list iter = A \<Longrightarrow> find (\<lambda>c. c |\<notin>| B) iter = None \<longleftrightarrow> A |-| B = {||}"
  by (auto simp: find_None_iff fset_of_list.rep_eq)

lemma find_Some_fset:
  "fset_of_list iter = A \<Longrightarrow> find (\<lambda>c. c |\<notin>| B) iter = Some c \<Longrightarrow> c |\<in>| A |-| B"
  by (auto simp: find_Some_iff fset_of_list.rep_eq)

lemma pool_nth_member:
  assumes "A \<noteq> {||}"
  shows "sorted_list_of_fset A ! (r mod length (sorted_list_of_fset A)) |\<in>| A"
proof -
  have "sorted_list_of_fset A \<noteq> []"
    using assms by (metis fset_of_list.rep_eq sorted_list_of_fset_simps(2) bot_fset.rep_eq fset_inject list.set(1))
  then have "r mod length (sorted_list_of_fset A) < length (sorted_list_of_fset A)"
    by simp
  then have "sorted_list_of_fset A ! (r mod length (sorted_list_of_fset A)) \<in> set (sorted_list_of_fset A)"
    by (rule nth_mem)
  then show ?thesis by simp
qed

lemma pool_every_member:
  assumes "c |\<in>| A"
  shows "\<exists>r. sorted_list_of_fset A ! (r mod length (sorted_list_of_fset A)) = c"
proof -
  from assms have "c \<in> set (sorted_list_of_fset A)" by simp
  then obtain r where "r < length (sorted_list_of_fset A)" "sorted_list_of_fset A ! r = c"
    by (metis in_set_conv_nth)
  then have "sorted_list_of_fset A ! (r mod length (sorted_list_of_fset A)) = c" by simp
  then show ?thesis ..
qed

lemma make_random_move_state: "snd (make_random_move v r st) = st"
  by (simp add: make_random_move_def Let_def split: sum.splits)

text \<open>
  What the two queries return. For any iteration order of \<open>safes\<close>, \<open>make_safe_move\<close>
  returns no cell exactly when \<open>safes - moves_made\<close> is empty and otherwise a cell of that
  set. On an interpreter where \<open>random.sample\<close> accepts a set, \<open>make_random_move\<close> returns
  no cell exactly when the set of all grid cells less \<open>moves_made\<close> and \<open>mines\<close> is empty
  and otherwise a cell of that set, and each cell of the set is returned for some draw.
  On an interpreter where it does not, \<open>make_random_move\<close> raises \<open>TypeError\<close> exactly
  when that set is not empty. Neither query changes the state.
\<close>

lemma make_safe_move_result:
  assumes "fset_of_list iter = safes st"
  shows "snd (make_safe_move iter st) = st"
    and "fst (make_safe_move iter st) = None \<longleftrightarrow> safes st |-| moves_made st = {||}"
    and "fst (make_safe_move iter st) = Some c \<Longrightarrow> c |\<in>| safes st |-| moves_made st"
  using find_None_fset [OF assms, of "moves_made st"] find_Some_fset [OF assms, of "moves_made st" c]
  by (simp_all add: make_safe_move_def)

lemma make_random_move_accepted:
  "fst (make_random_move True r st) = Inr None
     \<longleftrightarrow> all_cells st |-| moves_made st |-| mines st = {||}"
  "fst (make_random_move True r st) = Inr (Some c)
     \<Longrightarrow> c |\<in>| all_cells st |-| moves_made st |-| mines st"
  "c |\<in>| all_cells st |-| moves_made st |-| mines st
     \<Longrightarrow> \<exists>r'. fst (make_random_move True r' st) = Inr (Some c)"
  "fst (make_random_move True r st) \<noteq> Inl e"
proof -
  let ?R = "all_cells st |-| moves_made st |-| mines st"
  show "fst (make_random_move True r st) = Inr None \<longleftrightarrow> ?R = {||}"
    by (simp add: make_random_move_def random_sample_pop_def Let_def)
  show "fst (make_random_move True r st) \<noteq> Inl e"
    by (simp add: make_random_move_def random_sample_pop_def Let_def)
  show "c |\<in>| ?R" if "fst (make_random_move True r st) = Inr (Some c)"
  proof (cases "?R = {||}")
    case True
    with that show ?thesis by (simp add: make_random_move_def Let_def)
  next
    case False
    with that have "c = sorted_list_of_fset ?R ! (r mod length (sorted_list_of_fset ?R))"
      by (simp add: make_random_move_def random_sample_pop_def Let_def)
    with pool_nth_member [OF False, of r] show ?thesis by simp
  qed
  show "\<exists>r'. fst (make_random_move True r' st) = Inr (Some c)" if c: "c |\<in>| ?R"
  proof -
    from c have ne: "?R \<noteq> {||}" by auto
    from pool_every_member [OF c] obtain r' where
      "sorted_list_of_fset ?R ! (r' mod length (sorted_list_of_fset ?R)) = c" ..
    with ne have "fst (make_random_move True r' st) = Inr (Some c)"
      by (simp add: make_random_move_def random_sample_pop_def Let_def)
    then show ?thesis ..
  qed
qed

lemma make_random_move_refused:
  "fst (make_random_move False r st) = Inl TypeError
     \<longleftrightarrow> all_cells st |-| moves_made st |-| mines st \<noteq> {||}"
  "fst (make_random_move False r st) = Inr None
     \<longleftrightarrow> all_cells st |-| moves_made st |-| mines st = {||}"
  "fst (make_random_move False r st) \<noteq> Inr (Some c)"
  by (simp_all add: make_random_move_def random_sample_pop_def Let_def)

text \<open>
  C9 fails for \<open>make_random_move\<close> where \<open>random.sample\<close> does not accept a set (Python
  3.11 and later): on a fresh agent for a 1 by 2 grid both cells are available, and the
  call raises \<open>TypeError\<close> instead of returning one of them. Where sets are accepted the
  same call returns a cell.
\<close>

theorem make_random_move_raises:
  "all_cells (MinesweeperAI 1 2) |-| moves_made (MinesweeperAI 1 2) |-| mines (MinesweeperAI 1 2)
     = {|(0, 0), (0, 1)|}
   \<and> make_random_move False 0 (MinesweeperAI 1 2) = (Inl TypeError, MinesweeperAI 1 2)
   \<and> make_random_move True 0 (MinesweeperAI 1 2) = (Inr (Some (0, 0)), MinesweeperAI 1 2)"
  by code_simp

section \<open>Agent: recording an observation\<close>


section \<open>Agent: subset inference\<close>

text \<open>
  C3. On an agent fed consistent observations, the inference step of every
  \<open>add_knowledge\<close> call returns, and it changes nothing but \<open>knowledge\<close>, by appending.
  When it returns, for every ordered pair of distinct non-empty sentences \<open>(A, B)\<close> of
  \<open>knowledge\<close> with the cells of \<open>A\<close> among those of \<open>B\<close>, the sentence with cells
  \<open>B.cells - A.cells - moves_made\<close> and count \<open>B.count - A.count\<close> is in \<open>knowledge\<close>; it is
  never degenerate and never empty, and the body of the loops appends it to a list if
  and only if no equal sentence is in that list and it is not degenerate. Every
  appended sentence was absent when appended and is the derived sentence of such a pair.
\<close>

theorem subset_inference:
  fixes g st0 i j
  defines "p \<equiv> propagate (add_sentence st0 (i, j) (nearby_mines g (i, j)))"
  assumes wf: "wf_board g" and run: "consistent_run g st0"
    and cell: "0 \<le> i" "i < board_height g" "0 \<le> j" "j < board_width g"
    and safe: "is_mine g (i, j) = Some False"
  shows "\<exists>st'. add_knowledge st0 (i, j) (nearby_mines g (i, j)) = Some st'
     \<and> infer p = Some st'
     \<and> height st' = height p \<and> width st' = width p \<and> moves_made st' = moves_made p
     \<and> mines st' = mines p \<and> safes st' = safes p
     \<and> (\<exists>zs. knowledge st' = knowledge p @ zs \<and> distinct zs
            \<and> set zs \<inter> set (knowledge p) = {}
            \<and> (\<forall>z \<in> set zs. \<not> degenerate z \<and> cells z \<noteq> {||}
                   \<and> (\<exists>A \<in> set (knowledge st'). \<exists>B \<in> set (knowledge st').
                         inferable A B \<and> z = reduced (moves_made st') A B)))
     \<and> (\<forall>A \<in> set (knowledge st'). \<forall>B \<in> set (knowledge st'). inferable A B \<longrightarrow>
            reduced (moves_made st') A B \<in> set (knowledge st')
          \<and> \<not> degenerate (reduced (moves_made st') A B)
          \<and> cells (reduced (moves_made st') A B) \<noteq> {||}
          \<and> (\<forall>k. infer_pair (moves_made st') A B k =
                (if reduced (moves_made st') A B \<notin> set k
                    \<and> \<not> degenerate (reduced (moves_made st') A B)
                 then k @ [reduced (moves_made st') A B] else k)))"
proof -
  let ?m = "moves_made p"
  from consistent_run_sound [OF run] have s0: "sound g st0"
    and dims: "height st0 = board_height g" "width st0 = board_width g"
    by simp_all
  from safe cell have "\<not> mine_at g (i, j)"
    by (simp add: is_mine_False)
  with s0 dims have sp: "sound g p"
    unfolding p_def by (intro sound_propagate sound_add_sentence)
  from moves_within_safes_step [OF consistent_run_moves [OF run]]
  have mp: "moves_made p |\<subseteq>| safes p"
    by (simp add: p_def)
  from sp have truths: "\<forall>s \<in> set (knowledge p). holds_on g s"
    and nomine: "\<forall>c. c |\<in>| ?m \<longrightarrow> \<not> mine_at g c"
    by (simp_all add: sound_def)
  from infer_loop_returns_true [OF truths nomine, of 0 0]
  obtain k' where loop: "infer_loop ?m 0 0 (knowledge p) = Some k'" ..
  define st' where "st' = p\<lparr>knowledge := k'\<rparr>"
  from loop have inf: "infer p = Some st'"
    by (simp add: infer_def st'_def)
  then have add: "add_knowledge st0 (i, j) (nearby_mines g (i, j)) = Some st'"
    by (simp add: add_knowledge_def p_def)
  from sound_infer [OF sp inf] have s': "sound g st'" .
  have ms': "moves_made st' = ?m" "safes st' = safes p" "knowledge st' = k'"
    by (simp_all add: st'_def)
  have true': "\<forall>s \<in> set (knowledge st'). holds_on g s"
    and disj': "\<forall>s \<in> set (knowledge st'). cells s |\<inter>| ?m = {||}"
  proof -
    from s' show "\<forall>s \<in> set (knowledge st'). holds_on g s"
      by (simp add: sound_def)
    from s' have "\<forall>s \<in> set (knowledge st'). cells s |\<inter>| safes st' = {||}"
      unfolding sound_def by auto
    with mp ms' show "\<forall>s \<in> set (knowledge st'). cells s |\<inter>| ?m = {||}"
      by auto
  qed
  from sp mp have "\<forall>s \<in> set (knowledge p). cells s |\<inter>| ?m = {||}"
    unfolding sound_def by auto
  then have "examined ?m 0 0 (knowledge p)"
    by (rule examined_start)
  with loop have cl: "closed ?m k'"
    by (rule infer_loop_closed)
  have good: "reduced ?m A B \<in> set (knowledge st') \<and> \<not> degenerate (reduced ?m A B)
          \<and> cells (reduced ?m A B) \<noteq> {||}
          \<and> (\<forall>k. infer_pair ?m A B k =
                (if reduced ?m A B \<notin> set k \<and> \<not> degenerate (reduced ?m A B)
                 then k @ [reduced ?m A B] else k))"
    if A: "A \<in> set (knowledge st')" and B: "B \<in> set (knowledge st')" and ab: "inferable A B"
    for A B
  proof -
    from cl A B ab have r: "reduced ?m A B \<in> set (knowledge st')"
      by (simp add: closed_def ms')
    with true' have "holds_on g (reduced ?m A B)" by blast
    then have nd: "\<not> degenerate (reduced ?m A B)"
      by (rule holds_on_not_degenerate)
    from true' disj' A B have "holds_on g A" "holds_on g B" "cells B |\<inter>| ?m = {||}"
      by blast+
    then have ne: "cells (reduced ?m A B) \<noteq> {||}"
      using ab by (intro reduced_not_empty) 
    from ab nd have "\<forall>k. infer_pair ?m A B k =
                (if reduced ?m A B \<notin> set k \<and> \<not> degenerate (reduced ?m A B)
                 then k @ [reduced ?m A B] else k)"
      by (simp add: infer_pair_eq inferable_def)
    with r nd ne show ?thesis by blast
  qed
  from infer_result [OF inf] obtain zs where frame: "height st' = height p" "width st' = width p"
      "moves_made st' = moves_made p" "mines st' = mines p" "safes st' = safes p"
    and zs: "knowledge st' = knowledge p @ zs" "distinct zs" "set zs \<inter> set (knowledge p) = {}"
      "\<forall>z \<in> set zs. \<exists>A \<in> set (knowledge st'). \<exists>B \<in> set (knowledge st').
           inferable A B \<and> z = reduced ?m A B"
    by blast
  have "\<forall>z \<in> set zs. \<not> degenerate z \<and> cells z \<noteq> {||}
           \<and> (\<exists>A \<in> set (knowledge st'). \<exists>B \<in> set (knowledge st').
                 inferable A B \<and> z = reduced ?m A B)"
  proof
    fix z assume "z \<in> set zs"
    with zs(4) obtain A B where AB: "A \<in> set (knowledge st')" "B \<in> set (knowledge st')"
        "inferable A B" "z = reduced ?m A B"
      by blast
    with good [OF AB(1,2,3)] show "\<not> degenerate z \<and> cells z \<noteq> {||}
           \<and> (\<exists>A \<in> set (knowledge st'). \<exists>B \<in> set (knowledge st').
                 inferable A B \<and> z = reduced ?m A B)"
      by blast
  qed
  with zs have app: "\<exists>zs. knowledge st' = knowledge p @ zs \<and> distinct zs
            \<and> set zs \<inter> set (knowledge p) = {}
            \<and> (\<forall>z \<in> set zs. \<not> degenerate z \<and> cells z \<noteq> {||}
                   \<and> (\<exists>A \<in> set (knowledge st'). \<exists>B \<in> set (knowledge st').
                         inferable A B \<and> z = reduced ?m A B))"
    by blast
  from add inf frame app good show ?thesis
    unfolding ms'(1) [symmetric] by blast
qed

theorem subset_inference_witness:
  "wf_board \<lparr>board_height = 2, board_width = 3,
              board = [[False, True, False], [False, False, False]]\<rparr>
   \<and> consistent_run \<lparr>board_height = 2, board_width = 3,
              board = [[False, True, False], [False, False, False]]\<rparr>
        \<lparr>height = 2, width = 3, moves_made = {|(1, 0), (1, 2)|}, mines = {||},
        safes = {|(1, 0), (1, 2)|},
        knowledge = [\<lparr>cells = {|(0, 0), (0, 1), (1, 1)|}, count = 1\<rparr>,
                     \<lparr>cells = {|(0, 1), (0, 2), (1, 1)|}, count = 1\<rparr>]\<rparr>
   \<and> is_mine \<lparr>board_height = 2, board_width = 3,
              board = [[False, True, False], [False, False, False]]\<rparr> (1, 1) = Some False
   \<and> add_knowledge
        \<lparr>height = 2, width = 3, moves_made = {|(1, 0), (1, 2)|}, mines = {||},
        safes = {|(1, 0), (1, 2)|},
        knowledge = [\<lparr>cells = {|(0, 0), (0, 1), (1, 1)|}, count = 1\<rparr>,
                     \<lparr>cells = {|(0, 1), (0, 2), (1, 1)|}, count = 1\<rparr>]\<rparr> (1, 1)
        (nearby_mines \<lparr>board_height = 2, board_width = 3,
              board = [[False, True, False], [False, False, False]]\<rparr> (1, 1))
     = Some \<lparr>height = 2, width = 3, moves_made = {|(1, 0), (1, 1), (1, 2)|}, mines = {||},
        safes = {|(1, 0), (1, 1), (1, 2)|},
        knowledge = [\<lparr>cells = {|(0, 0), (0, 1)|}, count = 1\<rparr>,
                     \<lparr>cells = {|(0, 1), (0, 2)|}, count = 1\<rparr>,
                     \<lparr>cells = {|(0, 0), (0, 1), (0, 2)|}, count = 1\<rparr>,
                     \<lparr>cells = {|(0, 2)|}, count = 0\<rparr>,
                     \<lparr>cells = {|(0, 0)|}, count = 0\<rparr>,
                     \<lparr>cells = {|(0, 1)|}, count = 1\<rparr>,
                     \<lparr>cells = {|(0, 0), (0, 2)|}, count = 0\<rparr>]\<rparr>
   \<and> inferable \<lparr>cells = {|(0, 1)|}, count = 1\<rparr> \<lparr>cells = {|(0, 0), (0, 1), (0, 2)|}, count = 1\<rparr>
   \<and> reduced {|(1, 0), (1, 1), (1, 2)|} \<lparr>cells = {|(0, 1)|}, count = 1\<rparr>
          \<lparr>cells = {|(0, 0), (0, 1), (0, 2)|}, count = 1\<rparr>
       \<in> set [\<lparr>cells = {|(0, 0), (0, 1)|}, count = 1\<rparr>,
                     \<lparr>cells = {|(0, 1), (0, 2)|}, count = 1\<rparr>,
                     \<lparr>cells = {|(0, 0), (0, 1), (0, 2)|}, count = 1\<rparr>,
                     \<lparr>cells = {|(0, 2)|}, count = 0\<rparr>,
                     \<lparr>cells = {|(0, 0)|}, count = 0\<rparr>,
                     \<lparr>cells = {|(0, 1)|}, count = 1\<rparr>,
                     \<lparr>cells = {|(0, 0), (0, 2)|}, count = 0\<rparr>]
   \<and> \<not> degenerate (reduced {|(1, 0), (1, 1), (1, 2)|} \<lparr>cells = {|(0, 1)|}, count = 1\<rparr>
          \<lparr>cells = {|(0, 0), (0, 1), (0, 2)|}, count = 1\<rparr>)"
proof -
  let ?g = "\<lparr>board_height = 2, board_width = 3,
              board = [[False, True, False], [False, False, False]]\<rparr> :: minesweeper"
  let ?t1 = "\<lparr>height = 2, width = 3, moves_made = {|(1, 0)|}, mines = {||}, safes = {|(1, 0)|},
        knowledge = [\<lparr>cells = {|(0, 0), (0, 1), (1, 1)|}, count = 1\<rparr>]\<rparr> :: agent"
  let ?t2 = "\<lparr>height = 2, width = 3, moves_made = {|(1, 0), (1, 2)|}, mines = {||},
        safes = {|(1, 0), (1, 2)|},
        knowledge = [\<lparr>cells = {|(0, 0), (0, 1), (1, 1)|}, count = 1\<rparr>,
                     \<lparr>cells = {|(0, 1), (0, 2), (1, 1)|}, count = 1\<rparr>]\<rparr> :: agent"
  let ?t3 = "\<lparr>height = 2, width = 3, moves_made = {|(1, 0), (1, 1), (1, 2)|}, mines = {||},
        safes = {|(1, 0), (1, 1), (1, 2)|},
        knowledge = [\<lparr>cells = {|(0, 0), (0, 1)|}, count = 1\<rparr>,
                     \<lparr>cells = {|(0, 1), (0, 2)|}, count = 1\<rparr>,
                     \<lparr>cells = {|(0, 0), (0, 1), (0, 2)|}, count = 1\<rparr>,
                     \<lparr>cells = {|(0, 2)|}, count = 0\<rparr>,
                     \<lparr>cells = {|(0, 0)|}, count = 0\<rparr>,
                     \<lparr>cells = {|(0, 1)|}, count = 1\<rparr>,
                     \<lparr>cells = {|(0, 0), (0, 2)|}, count = 0\<rparr>]\<rparr> :: agent"
  let ?A = "\<lparr>cells = {|(0, 1)|}, count = 1\<rparr> :: sentence"
  let ?B = "\<lparr>cells = {|(0, 0), (0, 1), (0, 2)|}, count = 1\<rparr> :: sentence"
  have wf: "wf_board ?g"
    by (simp add: wf_board_def)
  have r0: "consistent_run ?g (MinesweeperAI (board_height ?g) (board_width ?g))"
    by (rule consistent_run.start)
  have m1: "is_mine ?g (1, 0) = Some False"
    by code_simp
  have a1: "add_knowledge (MinesweeperAI (board_height ?g) (board_width ?g)) (1, 0)
      (nearby_mines ?g (1, 0)) = Some ?t1"
    by code_simp
  have r1: "consistent_run ?g ?t1"
    by (rule consistent_run.observe [OF r0 _ _ _ _ m1 a1]) simp_all
  have m2: "is_mine ?g (1, 2) = Some False"
    by code_simp
  have a2: "add_knowledge ?t1 (1, 2) (nearby_mines ?g (1, 2)) = Some ?t2"
    by code_simp
  have r2: "consistent_run ?g ?t2"
    by (rule consistent_run.observe [OF r1 _ _ _ _ m2 a2]) simp_all
  have m3: "is_mine ?g (1, 1) = Some False"
    by code_simp
  have a3: "add_knowledge ?t2 (1, 1) (nearby_mines ?g (1, 1)) = Some ?t3"
    by code_simp
  have ab: "inferable ?A ?B"
    by code_simp
  have mem: "?A \<in> set (knowledge ?t3)" "?B \<in> set (knowledge ?t3)"
    by simp_all
  have mv: "moves_made ?t3 = {|(1, 0), (1, 1), (1, 2)|}"
    by simp
  have "\<exists>st'. add_knowledge ?t2 (1, 1) (nearby_mines ?g (1, 1)) = Some st'
      \<and> (\<forall>A \<in> set (knowledge st'). \<forall>B \<in> set (knowledge st'). inferable A B \<longrightarrow>
            reduced (moves_made st') A B \<in> set (knowledge st')
          \<and> \<not> degenerate (reduced (moves_made st') A B))"
    using subset_inference [OF wf r2 _ _ _ _ m3] by fastforce
  then obtain st' where "add_knowledge ?t2 (1, 1) (nearby_mines ?g (1, 1)) = Some st'"
    and cl: "\<forall>A \<in> set (knowledge st'). \<forall>B \<in> set (knowledge st'). inferable A B \<longrightarrow>
            reduced (moves_made st') A B \<in> set (knowledge st')
          \<and> \<not> degenerate (reduced (moves_made st') A B)"
    by blast
  with a3 have "st' = ?t3"
    by simp
  with cl mem ab have "reduced (moves_made ?t3) ?A ?B \<in> set (knowledge ?t3)
      \<and> \<not> degenerate (reduced (moves_made ?t3) ?A ?B)"
    by blast
  then have "reduced {|(1, 0), (1, 1), (1, 2)|} ?A ?B \<in> set (knowledge ?t3)
      \<and> \<not> degenerate (reduced {|(1, 0), (1, 1), (1, 2)|} ?A ?B)"
    unfolding mv .
  then have last: "reduced {|(1, 0), (1, 1), (1, 2)|} ?A ?B \<in> set [\<lparr>cells = {|(0, 0), (0, 1)|}, count = 1\<rparr>,
                     \<lparr>cells = {|(0, 1), (0, 2)|}, count = 1\<rparr>,
                     \<lparr>cells = {|(0, 0), (0, 1), (0, 2)|}, count = 1\<rparr>,
                     \<lparr>cells = {|(0, 2)|}, count = 0\<rparr>,
                     \<lparr>cells = {|(0, 0)|}, count = 0\<rparr>,
                     \<lparr>cells = {|(0, 1)|}, count = 1\<rparr>,
                     \<lparr>cells = {|(0, 0), (0, 2)|}, count = 0\<rparr>]
      \<and> \<not> degenerate (reduced {|(1, 0), (1, 1), (1, 2)|} ?A ?B)"
    by simp
  from wf r2 m3 a3 ab last show ?thesis
    by blast
qed

section \<open>Agent: duplicates in the knowledge list\<close>

text \<open>
  C6, as the code has it. Both appends are guarded by a membership test, so neither
  introduces a duplicate: if the list is duplicate-free once the observed cell has been
  stripped from it, it is so after the new sentence is added, and the inference step
  keeps a duplicate-free list duplicate-free.
\<close>

theorem appends_keep_distinct:
  "(distinct (map (\<lambda>s. Sentence_mark_safe s c) (knowledge st))
      \<longrightarrow> distinct (knowledge (add_sentence st c n)))
   \<and> (distinct (knowledge s) \<and> infer s = Some s' \<longrightarrow> distinct (knowledge s'))"
proof -
  have a: "distinct (map (\<lambda>s. Sentence_mark_safe s c) (knowledge st))
      \<longrightarrow> distinct (knowledge (add_sentence st c n))"
    by (simp add: add_sentence_def mark_safe_def Let_def split: prod.splits)
  have b: "distinct (knowledge s) \<and> infer s = Some s' \<longrightarrow> distinct (knowledge s')"
    by (auto simp: infer_def dest: infer_loop_distinct)
  from a b show ?thesis ..
qed

theorem appends_keep_distinct_witness:
  "distinct (map (\<lambda>s. Sentence_mark_safe s (1, 0))
       (knowledge \<lparr>height = 2, width = 3, moves_made = {||}, mines = {||}, safes = {||},
          knowledge = [\<lparr>cells = {|(0, 0), (0, 1), (0, 2), (1, 0), (1, 2)|}, count = 1\<rparr>]\<rparr>))
   \<and> distinct (knowledge (add_sentence
         \<lparr>height = 2, width = 3, moves_made = {||}, mines = {||}, safes = {||},
          knowledge = [\<lparr>cells = {|(0, 0), (0, 1), (0, 2), (1, 0), (1, 2)|}, count = 1\<rparr>]\<rparr>
         (1, 0) 1))
   \<and> distinct (knowledge \<lparr>height = 1, width = 3, moves_made = {||}, mines = {||}, safes = {||},
      knowledge = [\<lparr>cells = {|(0, 0), (0, 1)|}, count = 1\<rparr>,
                   \<lparr>cells = {|(0, 0), (0, 1), (0, 2)|}, count = 1\<rparr>]\<rparr>)
   \<and> infer \<lparr>height = 1, width = 3, moves_made = {||}, mines = {||}, safes = {||},
      knowledge = [\<lparr>cells = {|(0, 0), (0, 1)|}, count = 1\<rparr>,
                   \<lparr>cells = {|(0, 0), (0, 1), (0, 2)|}, count = 1\<rparr>]\<rparr>
     = Some \<lparr>height = 1, width = 3, moves_made = {||}, mines = {||}, safes = {||},
      knowledge = [\<lparr>cells = {|(0, 0), (0, 1)|}, count = 1\<rparr>,
                   \<lparr>cells = {|(0, 0), (0, 1), (0, 2)|}, count = 1\<rparr>,
                   \<lparr>cells = {|(0, 2)|}, count = 0\<rparr>]\<rparr>
   \<and> distinct (knowledge \<lparr>height = 1, width = 3, moves_made = {||}, mines = {||}, safes = {||},
      knowledge = [\<lparr>cells = {|(0, 0), (0, 1)|}, count = 1\<rparr>,
                   \<lparr>cells = {|(0, 0), (0, 1), (0, 2)|}, count = 1\<rparr>,
                   \<lparr>cells = {|(0, 2)|}, count = 0\<rparr>]\<rparr>)"
proof -
  let ?s0 = "\<lparr>height = 2, width = 3, moves_made = {||}, mines = {||}, safes = {||},
          knowledge = [\<lparr>cells = {|(0, 0), (0, 1), (0, 2), (1, 0), (1, 2)|}, count = 1\<rparr>]\<rparr> :: agent"
  let ?st = "\<lparr>height = 1, width = 3, moves_made = {||}, mines = {||}, safes = {||},
      knowledge = [\<lparr>cells = {|(0, 0), (0, 1)|}, count = 1\<rparr>,
                   \<lparr>cells = {|(0, 0), (0, 1), (0, 2)|}, count = 1\<rparr>]\<rparr> :: agent"
  let ?st' = "\<lparr>height = 1, width = 3, moves_made = {||}, mines = {||}, safes = {||},
      knowledge = [\<lparr>cells = {|(0, 0), (0, 1)|}, count = 1\<rparr>,
                   \<lparr>cells = {|(0, 0), (0, 1), (0, 2)|}, count = 1\<rparr>,
                   \<lparr>cells = {|(0, 2)|}, count = 0\<rparr>]\<rparr> :: agent"
  have a: "distinct (map (\<lambda>s. Sentence_mark_safe s (1, 0)) (knowledge ?s0))"
    by simp
  have b: "distinct (knowledge ?st)"
    by code_simp
  have c: "infer ?st = Some ?st'"
    by code_simp
  from appends_keep_distinct [of "(1, 0)" ?s0 1 ?st ?st'] a b c
  have "distinct (knowledge (add_sentence ?s0 (1, 0) 1))" and "distinct (knowledge ?st')"
    by blast+
  with a b c show ?thesis
    by blast
qed

text \<open>
  C6 as stated fails: marking rewrites the sentences in place and can make two of them
  equal. On a 1 by 3 grid without mines, after the observations \<open>((0,0), 0)\<close> and
  \<open>((0,1), 0)\<close> the list holds the empty sentence with count 0 twice.
\<close>

theorem knowledge_distinct_counterexample:
  "add_knowledge (MinesweeperAI 1 3) (0, 0) 0
     = Some \<lparr>height = 1, width = 3, moves_made = {|(0, 0)|}, mines = {||},
        safes = {|(0, 0), (0, 1)|}, knowledge = [\<lparr>cells = {||}, count = 0\<rparr>]\<rparr>
   \<and> add_knowledge \<lparr>height = 1, width = 3, moves_made = {|(0, 0)|}, mines = {||},
        safes = {|(0, 0), (0, 1)|}, knowledge = [\<lparr>cells = {||}, count = 0\<rparr>]\<rparr> (0, 1) 0
     = Some \<lparr>height = 1, width = 3, moves_made = {|(0, 0), (0, 1)|}, mines = {||},
        safes = {|(0, 0), (0, 1), (0, 2)|},
        knowledge = [\<lparr>cells = {||}, count = 0\<rparr>, \<lparr>cells = {||}, count = 0\<rparr>]\<rparr>
   \<and> \<not> distinct [\<lparr>cells = {||}, count = 0\<rparr>, \<lparr>cells = {||}, count = 0 :: int\<rparr>]"
  by code_simp
section \<open>Agent: propagation\<close>



text \<open>
  The pass of the next call visits the derived sentence: after the further observation
  \<open>((0,0), 1)\<close> the cell \<open>(0,2)\<close> is in \<open>safes\<close> and \<open>(0,1)\<close> is in \<open>mines\<close>.
\<close>

lemma scenario_next_call:
  "map_option safes (add_knowledge \<lparr>height = 2, width = 3, moves_made = {|(1, 0), (1, 1), (1, 2)|}, mines = {||},
        safes = {|(1, 0), (1, 1), (1, 2)|},
        knowledge = [\<lparr>cells = {|(0, 0), (0, 1)|}, count = 1\<rparr>,
                     \<lparr>cells = {|(0, 1), (0, 2)|}, count = 1\<rparr>,
                     \<lparr>cells = {|(0, 0), (0, 1), (0, 2)|}, count = 1\<rparr>,
                     \<lparr>cells = {|(0, 2)|}, count = 0\<rparr>,
                     \<lparr>cells = {|(0, 0)|}, count = 0\<rparr>,
                     \<lparr>cells = {|(0, 1)|}, count = 1\<rparr>,
                     \<lparr>cells = {|(0, 0), (0, 2)|}, count = 0\<rparr>]\<rparr> (0, 0) 1) = Some {|(0, 0), (0, 2), (1, 0), (1, 1), (1, 2)|}
   \<and> map_option mines (add_knowledge \<lparr>height = 2, width = 3, moves_made = {|(1, 0), (1, 1), (1, 2)|}, mines = {||},
        safes = {|(1, 0), (1, 1), (1, 2)|},
        knowledge = [\<lparr>cells = {|(0, 0), (0, 1)|}, count = 1\<rparr>,
                     \<lparr>cells = {|(0, 1), (0, 2)|}, count = 1\<rparr>,
                     \<lparr>cells = {|(0, 0), (0, 1), (0, 2)|}, count = 1\<rparr>,
                     \<lparr>cells = {|(0, 2)|}, count = 0\<rparr>,
                     \<lparr>cells = {|(0, 0)|}, count = 0\<rparr>,
                     \<lparr>cells = {|(0, 1)|}, count = 1\<rparr>,
                     \<lparr>cells = {|(0, 0), (0, 2)|}, count = 0\<rparr>]\<rparr> (0, 0) 1) = Some {|(0, 1)|}"
  by code_simp

section \<open>Agent: monotonicity\<close>

text \<open>
  C8. Over any sequence of calls of \<open>mark_mine\<close>, \<open>mark_safe\<close>, \<open>add_knowledge\<close>,
  \<open>make_safe_move\<close> and \<open>make_random_move\<close>, the sets \<open>moves_made\<close>, \<open>mines\<close> and \<open>safes\<close>
  only gain elements, the list \<open>knowledge\<close> does not get shorter, and the entry at each
  index of the earlier list is the same sentence narrowed by marking.
\<close>

theorem agent_state_monotone:
  assumes "agent_op\<^sup>*\<^sup>* st st'"
  shows "moves_made st |\<subseteq>| moves_made st' \<and> mines st |\<subseteq>| mines st' \<and> safes st |\<subseteq>| safes st'
     \<and> length (knowledge st) \<le> length (knowledge st')
     \<and> (\<forall>i < length (knowledge st). narrowed (knowledge st ! i) (knowledge st' ! i))"
  using grows_agent_ops [OF assms] by (simp add: grows_def)


theorem agent_state_monotone_witness:
  "agent_op\<^sup>*\<^sup>* \<lparr>height = 1, width = 3, moves_made = {|(0, 1)|}, mines = {||},
        safes = {|(0, 1)|}, knowledge = [\<lparr>cells = {|(0, 0), (0, 2)|}, count = 1\<rparr>]\<rparr>
     \<lparr>height = 1, width = 3, moves_made = {|(0, 0), (0, 1)|},
        mines = {|(0, 2)|}, safes = {|(0, 0), (0, 1)|},
        knowledge = [\<lparr>cells = {||}, count = 0\<rparr>]\<rparr>
   \<and> (0::nat) < length (knowledge \<lparr>height = 1, width = 3, moves_made = {|(0, 1)|}, mines = {||},
        safes = {|(0, 1)|}, knowledge = [\<lparr>cells = {|(0, 0), (0, 2)|}, count = 1\<rparr>]\<rparr>)
   \<and> mines \<lparr>height = 1, width = 3, moves_made = {|(0, 1)|}, mines = {||},
        safes = {|(0, 1)|}, knowledge = [\<lparr>cells = {|(0, 0), (0, 2)|}, count = 1\<rparr>]\<rparr>
       |\<subseteq>| mines \<lparr>height = 1, width = 3, moves_made = {|(0, 0), (0, 1)|},
        mines = {|(0, 2)|}, safes = {|(0, 0), (0, 1)|},
        knowledge = [\<lparr>cells = {||}, count = 0\<rparr>]\<rparr>
   \<and> narrowed (knowledge \<lparr>height = 1, width = 3, moves_made = {|(0, 1)|}, mines = {||},
        safes = {|(0, 1)|}, knowledge = [\<lparr>cells = {|(0, 0), (0, 2)|}, count = 1\<rparr>]\<rparr> ! 0)
       (knowledge \<lparr>height = 1, width = 3, moves_made = {|(0, 0), (0, 1)|},
        mines = {|(0, 2)|}, safes = {|(0, 0), (0, 1)|},
        knowledge = [\<lparr>cells = {||}, count = 0\<rparr>]\<rparr> ! 0)"
proof -
  let ?s1 = "\<lparr>height = 1, width = 3, moves_made = {|(0, 1)|}, mines = {||},
        safes = {|(0, 1)|}, knowledge = [\<lparr>cells = {|(0, 0), (0, 2)|}, count = 1\<rparr>]\<rparr> :: agent"
  let ?s2 = "\<lparr>height = 1, width = 3, moves_made = {|(0, 0), (0, 1)|},
        mines = {|(0, 2)|}, safes = {|(0, 0), (0, 1)|},
        knowledge = [\<lparr>cells = {||}, count = 0\<rparr>]\<rparr> :: agent"
  have "add_knowledge ?s1 (0, 0) 0 = Some ?s2"
    by code_simp
  then have "agent_op ?s1 ?s2"
    by (rule op_add_knowledge)
  then have run: "agent_op\<^sup>*\<^sup>* ?s1 ?s2"
    by (rule r_into_rtranclp)
  have len: "(0::nat) < length (knowledge ?s1)"
    by simp
  from agent_state_monotone [OF run] len
  have "mines ?s1 |\<subseteq>| mines ?s2" and "narrowed (knowledge ?s1 ! 0) (knowledge ?s2 ! 0)"
    by blast+
  with run len show ?thesis
    by blast
qed
section \<open>Agent: consistency with the board\<close>

text \<open>
  C4. Whenever an agent that was fed only consistent observations is between two calls,
  no cell is both in \<open>mines\<close> and in \<open>safes\<close>, and no sentence of \<open>knowledge\<close> contains a
  cell of \<open>mines\<close> or of \<open>safes\<close>.
\<close>

theorem consistent_run_disjoint:
  assumes "wf_board g" and "consistent_run g st"
  shows "mines st |\<inter>| safes st = {||}
     \<and> (\<forall>s \<in> set (knowledge st). cells s |\<inter>| mines st = {||} \<and> cells s |\<inter>| safes st = {||})"
proof -
  from consistent_run_sound [OF assms(2)] have s: "sound g st" ..
  then have "\<forall>c. c |\<in>| mines st \<longrightarrow> c |\<notin>| safes st"
    unfolding sound_def by blast
  then have "mines st |\<inter>| safes st = {||}"
    by auto
  moreover have "cells s |\<inter>| mines st = {||} \<and> cells s |\<inter>| safes st = {||}"
    if "s \<in> set (knowledge st)" for s
  proof -
    from s that have "cells s |\<inter>| (mines st |\<union>| safes st) = {||}"
      by (simp add: sound_def)
    then show ?thesis by auto
  qed
  ultimately show ?thesis by blast
qed


theorem consistent_run_disjoint_witness:
  "wf_board \<lparr>board_height = 1, board_width = 3, board = [[False, False, True]]\<rparr>
   \<and> consistent_run \<lparr>board_height = 1, board_width = 3, board = [[False, False, True]]\<rparr>
        \<lparr>height = 1, width = 3, moves_made = {|(0, 0), (0, 1)|},
        mines = {|(0, 2)|}, safes = {|(0, 0), (0, 1)|},
        knowledge = [\<lparr>cells = {||}, count = 0\<rparr>]\<rparr>
   \<and> mines \<lparr>height = 1, width = 3, moves_made = {|(0, 0), (0, 1)|},
        mines = {|(0, 2)|}, safes = {|(0, 0), (0, 1)|},
        knowledge = [\<lparr>cells = {||}, count = 0\<rparr>]\<rparr>
       |\<inter>| safes \<lparr>height = 1, width = 3, moves_made = {|(0, 0), (0, 1)|},
        mines = {|(0, 2)|}, safes = {|(0, 0), (0, 1)|},
        knowledge = [\<lparr>cells = {||}, count = 0\<rparr>]\<rparr> = {||}"
proof -
  let ?g = "\<lparr>board_height = 1, board_width = 3, board = [[False, False, True]]\<rparr> :: minesweeper"
  let ?s1 = "\<lparr>height = 1, width = 3, moves_made = {|(0, 1)|}, mines = {||},
        safes = {|(0, 1)|}, knowledge = [\<lparr>cells = {|(0, 0), (0, 2)|}, count = 1\<rparr>]\<rparr> :: agent"
  let ?s2 = "\<lparr>height = 1, width = 3, moves_made = {|(0, 0), (0, 1)|},
        mines = {|(0, 2)|}, safes = {|(0, 0), (0, 1)|},
        knowledge = [\<lparr>cells = {||}, count = 0\<rparr>]\<rparr> :: agent"
  have wf: "wf_board ?g"
    by (simp add: wf_board_def)
  have r0: "consistent_run ?g (MinesweeperAI (board_height ?g) (board_width ?g))"
    by (rule consistent_run.start)
  have m1: "is_mine ?g (0, 1) = Some False"
    by code_simp
  have a1: "add_knowledge (MinesweeperAI (board_height ?g) (board_width ?g)) (0, 1)
      (nearby_mines ?g (0, 1)) = Some ?s1"
    by code_simp
  have r1: "consistent_run ?g ?s1"
    by (rule consistent_run.observe [OF r0 _ _ _ _ m1 a1]) simp_all
  have m2: "is_mine ?g (0, 0) = Some False"
    by code_simp
  have a2: "add_knowledge ?s1 (0, 0) (nearby_mines ?g (0, 0)) = Some ?s2"
    by code_simp
  have run: "consistent_run ?g ?s2"
    by (rule consistent_run.observe [OF r1 _ _ _ _ m2 a2]) simp_all
  from consistent_run_disjoint [OF wf run] wf run show ?thesis
    by blast
qed

end
